theory Spec2Isabelle
  imports Main "HOL-Library.AList"
begin

section \<open>Data model\<close>

text \<open>
  A course is a JSON object, a Python dict from attribute names to values. The values
  modelled are the JSON scalars; arrays, objects and floating-point numbers are left out (no
  function of the server looks inside one). An index is a dict from index keys to courses;
  it is an association list in insertion order, as a Python dict is, and is read with
  \<open>map_of\<close>.
\<close>

datatype val = VNull | VBool bool | VInt int | VStr string

type_synonym course = "string \<rightharpoonup> val"
type_synonym key = "val list"
type_synonym index = "(key \<times> course) list"

datatype scrape_msg =
    DuplicateWithSuffix string  \<comment> \<open>"duplicate course with suffix: <code>"\<close>
  | MoreThanOneMatching string  \<comment> \<open>"more than one course matching <code>"\<close>
  | TimedOut
  | PortalScraperError

datatype error =
    KeyError string
  | AssertionError
  | TypeError
  | ValueError
  | ScrapeError scrape_msg

fun bind_err :: "error + 'a \<Rightarrow> ('a \<Rightarrow> error + 'b) \<Rightarrow> error + 'b" where
  "bind_err (Inl e) f = Inl e"
| "bind_err (Inr x) f = f x"

text \<open>A \<open>for\<close> loop whose body may raise: the first exception ends it.\<close>

fun for_each :: "('a \<Rightarrow> 's \<Rightarrow> error + 's) \<Rightarrow> 'a list \<Rightarrow> 's \<Rightarrow> error + 's" where
  "for_each f [] s = Inr s"
| "for_each f (x # xs) s = bind_err (f x s) (for_each f xs)"

text \<open>\<open>d[attr]\<close> on a dict: a missing attribute raises KeyError.\<close>

definition getitem :: "course \<Rightarrow> string \<Rightarrow> error + val" where
  "getitem c attr = (case c attr of None \<Rightarrow> Inl (KeyError attr) | Some v \<Rightarrow> Inr v)"

text \<open>Python's \<open>==\<close> on scalars: a bool is the integer 0 or 1.\<close>

fun as_int :: "val \<Rightarrow> val" where
  "as_int (VBool b) = VInt (if b then 1 else 0)"
| "as_int v = v"

definition py_eq :: "val \<Rightarrow> val \<Rightarrow> bool" where
  "py_eq a b = (as_int a = as_int b)"

text \<open>Truth value of a scalar, as \<open>if x:\<close> tests it.\<close>

fun truthy :: "val \<Rightarrow> bool" where
  "truthy VNull = False"
| "truthy (VBool b) = b"
| "truthy (VInt n) = (n \<noteq> 0)"
| "truthy (VStr s) = (s \<noteq> [])"

subsection \<open>The course library\<close>

text \<open>
  Modelled from the spec: \<open>libcourse.COURSE_INDEX_ATTRS\<close>, the identity attributes
  (department, numeric code, code suffix, organizational unit, section), under the names
  \<open>format_course_code\<close> reads them by.
\<close>

definition COURSE_INDEX_ATTRS :: "string list" where
  "COURSE_INDEX_ATTRS =
     [''department'', ''courseNumber'', ''courseCodeSuffix'', ''school'', ''section'']"

fun getitems :: "course \<Rightarrow> string list \<Rightarrow> error + val list" where
  "getitems c [] = Inr []"
| "getitems c (a # as) =
     bind_err (getitem c a) (\<lambda>v. bind_err (getitems c as) (\<lambda>vs. Inr (v # vs)))"

text \<open>
  Modelled from the spec: \<open>libcourse.course_to_index_key\<close>, a deterministic encoding of
  the identity tuple: the values of the identity attributes, in order.
\<close>

definition course_to_index_key :: "course \<Rightarrow> error + key" where
  "course_to_index_key c = getitems c COURSE_INDEX_ATTRS"

text \<open>
  Modelled from the spec: \<open>libcourse.course_from_index_key\<close>, the placeholder record of a
  key: the identity attributes only, every other attribute absent.
\<close>

definition course_from_index_key :: "key \<Rightarrow> course" where
  "course_from_index_key k = map_of (zip COURSE_INDEX_ATTRS k)"

text \<open>
  \<open>libcourse.COURSE_ATTRS\<close>, the tracked attributes, is not among the sources: every
  function that reads it takes it as the parameter \<open>attrs\<close>.
\<close>

section \<open>Formatting a course code\<close>

definition digit_char :: "nat \<Rightarrow> char" where
  "digit_char d = ''0123456789'' ! d"

function str_nat :: "nat \<Rightarrow> string" where
  "str_nat n = (if n < 10 then [digit_char n] else str_nat (n div 10) @ [digit_char (n mod 10)])"
  by pat_completeness auto
termination
  by (relation "measure id") auto

declare str_nat.simps [simp del]

definition str_int :: "int \<Rightarrow> string" where
  "str_int n = (if n < 0 then CHR ''-'' # str_nat (nat (- n)) else str_nat (nat n))"

text \<open>The replacement field \<open>{}\<close>: \<open>str\<close> of the value.\<close>

fun format_plain :: "val \<Rightarrow> string" where
  "format_plain VNull = ''None''"
| "format_plain (VBool b) = (if b then ''True'' else ''False'')"
| "format_plain (VInt n) = str_int n"
| "format_plain (VStr s) = s"

text \<open>
  The replacement fields \<open>{:03d}\<close> and \<open>{:02d}\<close>: an integer in decimal, filled with
  zeros after the sign up to the width. A string has no format code \<open>d\<close> (ValueError) and
  \<open>None\<close> takes no format string (TypeError).
\<close>

definition zero_fill :: "nat \<Rightarrow> int \<Rightarrow> string" where
  "zero_fill w n =
     (if n < 0
      then CHR ''-'' # replicate (w - 1 - length (str_nat (nat (- n)))) CHR ''0''
             @ str_nat (nat (- n))
      else replicate (w - length (str_nat (nat n))) CHR ''0'' @ str_nat (nat n))"

fun format_d :: "nat \<Rightarrow> val \<Rightarrow> error + string" where
  "format_d w VNull = Inl TypeError"
| "format_d w (VBool b) = Inr (zero_fill w (if b then 1 else 0))"
| "format_d w (VInt n) = Inr (zero_fill w n)"
| "format_d w (VStr s) = Inl ValueError"

definition format_course_code :: "course \<Rightarrow> error + string" where
  "format_course_code course =
     bind_err (getitem course ''department'') (\<lambda>department.
     bind_err (getitem course ''courseNumber'') (\<lambda>courseNumber.
     bind_err (getitem course ''courseCodeSuffix'') (\<lambda>courseCodeSuffix.
     bind_err (getitem course ''school'') (\<lambda>school.
     bind_err (getitem course ''section'') (\<lambda>sec.
     bind_err (format_d 3 courseNumber) (\<lambda>num.
     bind_err (format_d 2 sec) (\<lambda>secnum.
       Inr (format_plain department @ '' '' @ num @ format_plain courseCodeSuffix @ '' ''
            @ format_plain school @ ''-'' @ secnum))))))))"

section \<open>Deduplication and indexing\<close>

text \<open>
  \<open>deduplicate_course_keys\<close> changes the course objects of its argument in place, and the
  groups it builds hold the same objects. The list of courses is the heap, a course object is
  its position in the list, and the function returns the list as it is when the function
  returns or raises, beside the exception if there is one.
\<close>

type_synonym groups = "(key \<times> nat list) list"

text \<open>\<open>course_index[key].append(course)\<close> on a \<open>defaultdict(list)\<close>.\<close>

definition group_append :: "key \<Rightarrow> nat \<Rightarrow> groups \<Rightarrow> groups" where
  "group_append k i g =
     (case map_of g k of
        None \<Rightarrow> AList.update k [i] g
      | Some members \<Rightarrow> AList.update k (members @ [i]) g)"

definition group_course :: "course list \<Rightarrow> nat \<Rightarrow> groups \<Rightarrow> error + groups" where
  "group_course courses i g =
     bind_err (course_to_index_key (courses ! i)) (\<lambda>k. Inr (group_append k i g))"

definition build_groups :: "course list \<Rightarrow> error + groups" where
  "build_groups courses = for_each (group_course courses) [0 ..< length courses] []"

definition ascii_uppercase :: string where
  "ascii_uppercase = ''ABCDEFGHIJKLMNOPQRSTUVWXYZ''"

text \<open>The loop that raises when a course of the group has a suffix.\<close>

fun check_suffixes :: "course list \<Rightarrow> nat list \<Rightarrow> error option" where
  "check_suffixes courses [] = None"
| "check_suffixes courses (i # members) =
     (case getitem (courses ! i) ''courseCodeSuffix'' of
        Inl e \<Rightarrow> Some e
      | Inr suffix \<Rightarrow>
          if truthy suffix
          then (case format_course_code (courses ! i) of
                  Inl e \<Rightarrow> Some e
                | Inr code \<Rightarrow> Some (ScrapeError (DuplicateWithSuffix code)))
          else check_suffixes courses members)"

text \<open>The loop over \<open>zip(courses, string.ascii_uppercase)\<close>: it ends with the shorter list.\<close>

fun assign_letters :: "(nat \<times> char) list \<Rightarrow> course list \<Rightarrow> course list" where
  "assign_letters [] courses = courses"
| "assign_letters ((i, letter) # rest) courses =
     assign_letters rest (courses[i := (courses ! i)(''courseCodeSuffix'' \<mapsto> VStr [letter])])"

fun dedup_groups :: "groups \<Rightarrow> course list \<Rightarrow> error option \<times> course list" where
  "dedup_groups [] courses = (None, courses)"
| "dedup_groups ((k, members) # rest) courses =
     (if length members > 1
      then (case check_suffixes courses members of
              Some e \<Rightarrow> (Some e, courses)
            | None \<Rightarrow> dedup_groups rest (assign_letters (zip members ascii_uppercase) courses))
      else dedup_groups rest courses)"




section \<open>Single-step diff\<close>

record update =
  added :: "key list"
  removed :: "key list"
  modified :: "(key \<times> string list) list"

text \<open>
  The inner loop of \<open>compute_update\<close>: the tracked attributes on which two courses differ.
\<close>

fun changed_attrs :: "string list \<Rightarrow> course \<Rightarrow> course \<Rightarrow> error + string list" where
  "changed_attrs [] old_course new_course = Inr []"
| "changed_attrs (attr # rest) old_course new_course =
     bind_err (getitem old_course attr) (\<lambda>ov.
     bind_err (getitem new_course attr) (\<lambda>nv.
     bind_err (changed_attrs rest old_course new_course) (\<lambda>as.
       Inr (if \<not> py_eq ov nv then attr # as else as))))"

text \<open>Subscripting the index: a missing key raises KeyError.\<close>

definition index_get :: "index \<Rightarrow> key \<Rightarrow> error + course" where
  "index_get ix k = (case map_of ix k of None \<Rightarrow> Inl (KeyError ''key'') | Some c \<Rightarrow> Inr c)"

fun modified_loop ::
  "string list \<Rightarrow> index \<Rightarrow> index \<Rightarrow> key list \<Rightarrow> error + (key \<times> string list) list" where
  "modified_loop attrs old new [] = Inr []"
| "modified_loop attrs old new (k # ks) =
     bind_err (index_get old k) (\<lambda>old_course.
     bind_err (index_get new k) (\<lambda>new_course.
     bind_err (changed_attrs attrs old_course new_course) (\<lambda>as.
     bind_err (modified_loop attrs old new ks) (\<lambda>m.
       Inr (if as \<noteq> [] then (k, as) # m else m)))))"

text \<open>
  \<open>set(d)\<close> of a dict is the set of its keys. Python leaves the iteration order of a set
  open; here a set is listed in the order of the dict it was made from, without repetition.
\<close>

definition keys_of :: "index \<Rightarrow> key list" where
  "keys_of ix = remdups (map fst ix)"

definition compute_update :: "string list \<Rightarrow> index \<Rightarrow> index \<Rightarrow> error + update" where
  "compute_update attrs old_courses_index new_courses_index =
     (let old_courses_keys = keys_of old_courses_index;
          new_courses_keys = keys_of new_courses_index;
          maybe_modified_keys = filter (\<lambda>k. k \<in> set old_courses_keys) new_courses_keys
      in bind_err
           (modified_loop attrs old_courses_index new_courses_index maybe_modified_keys)
           (\<lambda>modified_keys_and_attrs. Inr
              \<lparr> added = filter (\<lambda>k. k \<notin> set old_courses_keys) new_courses_keys,
                removed = filter (\<lambda>k. k \<notin> set new_courses_keys) old_courses_keys,
                modified = modified_keys_and_attrs \<rparr>))"

section \<open>The store\<close>

text \<open>
  The dict \<open>course_data\<close>. The key \<open>"malformed"\<close> is absent from \<open>INITIAL_COURSE_DATA\<close>
  and first written by \<open>update_course_data\<close>: \<open>None\<close> is the absent key.
\<close>

record store =
  current :: "course list option"
  index :: "index option"
  initial_timestamp :: "int option"
  updates :: "(int \<times> update) list"
  timestamp :: "int option"
  malformed :: "course list option"

definition INITIAL_COURSE_DATA :: store where
  "INITIAL_COURSE_DATA =
     \<lparr> current = None, index = None, initial_timestamp = None, updates = [],
       timestamp = None, malformed = None \<rparr>"

section \<open>Range diff\<close>

text \<open>
  The three accumulators of \<open>compute_diff\<close>: two Python sets and a dict from keys to sets of
  attribute names. A set is a list without repetition.
\<close>

record acc =
  acc_added :: "key list"
  acc_removed :: "key list"
  acc_modified :: "(key \<times> string list) list"

definition empty_acc :: acc where
  "empty_acc = \<lparr> acc_added = [], acc_removed = [], acc_modified = [] \<rparr>"

definition apply_modified :: "key \<times> string list \<Rightarrow> acc \<Rightarrow> error + acc" where
  "apply_modified ka a =
     (case ka of (k, attrs) \<Rightarrow>
        if k \<in> set (acc_removed a) then Inl AssertionError
        else
          let m = (if map_of (acc_modified a) k = None
                   then AList.update k [] (acc_modified a) else acc_modified a)
          in Inr (a\<lparr>acc_modified :=
                    AList.update k (List.union (the (map_of m k)) (remdups attrs)) m\<rparr>))"

definition apply_added :: "string list \<Rightarrow> key \<Rightarrow> acc \<Rightarrow> error + acc" where
  "apply_added attrs k a =
     (if \<not> (map_of (acc_modified a) k = None \<and> k \<notin> set (acc_added a))
      then Inl AssertionError
      else if k \<in> set (acc_removed a)
        then Inr (a\<lparr>acc_removed := removeAll k (acc_removed a),
                    acc_modified := AList.update k (remdups attrs) (acc_modified a)\<rparr>)
        else Inr (a\<lparr>acc_added := List.insert k (acc_added a)\<rparr>))"

definition apply_removed :: "key \<Rightarrow> acc \<Rightarrow> error + acc" where
  "apply_removed k a =
     (if k \<in> set (acc_removed a) then Inl AssertionError
      else
        let a1 = (if map_of (acc_modified a) k \<noteq> None
                  then a\<lparr>acc_modified := AList.delete k (acc_modified a)\<rparr> else a)
        in if k \<in> set (acc_added a1)
           then Inr (a1\<lparr>acc_added := removeAll k (acc_added a1)\<rparr>)
           else Inr (a1\<lparr>acc_removed := List.insert k (acc_removed a1)\<rparr>))"

definition apply_update :: "string list \<Rightarrow> int \<Rightarrow> int \<times> update \<Rightarrow> acc \<Rightarrow> error + acc" where
  "apply_update attrs since tu a =
     (case tu of (ts, u) \<Rightarrow>
        if ts > since
        then bind_err (for_each apply_modified (modified u) a) (\<lambda>a1.
             bind_err (for_each (apply_added attrs) (added u) a1) (\<lambda>a2.
             for_each apply_removed (removed u) a2))
        else Inr a)"

text \<open>The first loop of \<open>compute_diff\<close>: the replay of the retained update records.\<close>

definition replay :: "string list \<Rightarrow> (int \<times> update) list \<Rightarrow> int \<Rightarrow> error + acc" where
  "replay attrs ups since = for_each (apply_update attrs since) ups empty_acc"

record diff =
  added_courses :: "course list"
  removed_courses :: "course list"
  modified_courses :: "course list"

text \<open>\<open>index[key]\<close> where \<open>index\<close> is \<open>course_data["index"]\<close>, which may be \<open>None\<close>.\<close>

definition store_index_get :: "index option \<Rightarrow> key \<Rightarrow> error + course" where
  "store_index_get ixo k = (case ixo of None \<Rightarrow> Inl TypeError | Some ix \<Rightarrow> index_get ix k)"

fun lookup_all :: "index option \<Rightarrow> key list \<Rightarrow> error + course list" where
  "lookup_all ixo [] = Inr []"
| "lookup_all ixo (k # ks) =
     bind_err (store_index_get ixo k) (\<lambda>c.
     bind_err (lookup_all ixo ks) (\<lambda>cs. Inr (c # cs)))"

fun copy_attrs :: "course \<Rightarrow> string list \<Rightarrow> course \<Rightarrow> error + course" where
  "copy_attrs current_course [] c = Inr c"
| "copy_attrs current_course (attr # rest) c =
     bind_err (getitem current_course attr) (\<lambda>v.
       copy_attrs current_course rest (c(attr \<mapsto> v)))"

fun modified_all :: "index option \<Rightarrow> (key \<times> string list) list \<Rightarrow> error + course list" where
  "modified_all ixo [] = Inr []"
| "modified_all ixo ((k, attrs) # rest) =
     bind_err (store_index_get ixo k) (\<lambda>current_course.
     bind_err (copy_attrs current_course (COURSE_INDEX_ATTRS @ attrs) Map.empty) (\<lambda>c.
     bind_err (modified_all ixo rest) (\<lambda>cs. Inr (c # cs))))"

definition materialize :: "index option \<Rightarrow> acc \<Rightarrow> error + diff" where
  "materialize ixo a =
     bind_err (lookup_all ixo (acc_added a)) (\<lambda>ac.
     bind_err (modified_all ixo (acc_modified a)) (\<lambda>mc.
       Inr \<lparr> added_courses = ac,
             removed_courses = map course_from_index_key (acc_removed a),
             modified_courses = mc \<rparr>))"

definition compute_diff :: "string list \<Rightarrow> store \<Rightarrow> int \<Rightarrow> error + diff" where
  "compute_diff attrs cd since =
     bind_err (replay attrs (updates cd) since)
       (materialize (index cd))"

section \<open>Refreshing and resetting the store\<close>

definition MAX_UPDATES_SAVED :: nat where
  "MAX_UPDATES_SAVED = 100"

text \<open>
  \<open>update_course_data\<close> on the dict that \<open>course_data\<close> names. \<open>compute_update\<close> is
  evaluated before anything is written, so an exception in it leaves the dict as it was.
\<close>

definition update_course_data ::
  "string list \<Rightarrow> int \<Rightarrow> course list \<Rightarrow> index \<Rightarrow> course list \<Rightarrow> store \<Rightarrow> error + store" where
  "update_course_data attrs ts courses ix malformed_courses cd =
     bind_err
       (case index cd of
          Some last_index \<Rightarrow>
            bind_err (compute_update attrs last_index ix) (\<lambda>u.
              let ups = updates cd @ [(ts, u)]
              in Inr (cd\<lparr>updates :=
                        (if length ups > MAX_UPDATES_SAVED
                         then drop (length ups - MAX_UPDATES_SAVED) ups else ups)\<rparr>))
        | None \<Rightarrow> Inr (cd\<lparr>initial_timestamp := Some ts\<rparr>))
       (\<lambda>cd1. Inr (cd1\<lparr>current := Some courses, index := Some ix, timestamp := Some ts,
                       malformed := Some malformed_courses\<rparr>))"

text \<open>
  The module holds two dict objects: the one the name \<open>INITIAL_COURSE_DATA\<close> is bound to, and
  the deep copy of it that \<open>course_data\<close> is bound to when the module is loaded. The global
  \<open>course_data\<close> is a reference to one of the two.
\<close>

datatype ref = InitialObject | CopyObject

record world =
  heap :: "ref \<Rightarrow> store"
  course_data :: ref

definition module_loaded :: world where
  "module_loaded = \<lparr> heap = (\<lambda>r. INITIAL_COURSE_DATA), course_data = CopyObject \<rparr>"

definition deref :: "world \<Rightarrow> store" where
  "deref w = heap w (course_data w)"

text \<open>A refresh: \<open>update_course_data\<close> writes into the dict \<open>course_data\<close> refers to.\<close>

definition refresh ::
  "string list \<Rightarrow> int \<Rightarrow> course list \<Rightarrow> index \<Rightarrow> course list \<Rightarrow> world \<Rightarrow> error + world" where
  "refresh attrs ts courses ix malformed_courses w =
     bind_err (update_course_data attrs ts courses ix malformed_courses (deref w))
       (\<lambda>cd. Inr (w\<lparr>heap := (heap w)(course_data w := cd)\<rparr>))"

text \<open>
  The route \<open>/debug/reset\<close> of \<open>do_PUT\<close>: the assignment
  \<open>course_data = INITIAL_COURSE_DATA\<close> binds the global to the initial object itself.
\<close>

definition debug_reset :: "world \<Rightarrow> world" where
  "debug_reset w = w\<lparr>course_data := InitialObject\<rparr>"

datatype operation =
    Refresh int "course list" index "course list"
  | Reset

fun run :: "string list \<Rightarrow> operation list \<Rightarrow> world \<Rightarrow> error + world" where
  "run attrs [] w = Inr w"
| "run attrs (Refresh ts courses ix malformed_courses # ops) w =
     bind_err (refresh attrs ts courses ix malformed_courses w) (run attrs ops)"
| "run attrs (Reset # ops) w = run attrs ops (debug_reset w)"

section \<open>The read routes\<close>

datatype payload =
    AllCourses "course list" "int option" nat
  | Incremental diff "int option" nat
  | NotIncremental "course list" "int option" nat
  | MalformedCourses "course list"
  | CourseData store

datatype response =
    IndexHtml
  | OK payload
  | SendError nat
  | Raised error

definition SERVICE_UNAVAILABLE :: nat where "SERVICE_UNAVAILABLE = 503"
definition BAD_REQUEST :: nat where "BAD_REQUEST = 400"
definition NOT_FOUND :: nat where "NOT_FOUND = 404"

text \<open>\<open>re.match\<close> of a pattern that is a literal with an optional slash after it.\<close>

definition startswith :: "string \<Rightarrow> string \<Rightarrow> bool" where
  "startswith p s = (take (length p) s = p)"

definition ts_char :: "char \<Rightarrow> bool" where
  "ts_char c = (c \<in> set ''-0123456789'')"

text \<open>
  \<open>re.match(r"/api/v2/courses-since/([-0-9]+)/?", path)\<close>: the group is the longest run of
  characters of the class after the literal, and there is no match when the run is empty.
\<close>

definition match_courses_since :: "string \<Rightarrow> string option" where
  "match_courses_since path =
     (if startswith ''/api/v2/courses-since/'' path
      then (let g = takeWhile ts_char (drop (length ''/api/v2/courses-since/'') path)
            in if g = [] then None else Some g)
      else None)"

definition is_digit :: "char \<Rightarrow> bool" where
  "is_digit c = (c \<in> set ''0123456789'')"

definition digit_value :: "char \<Rightarrow> nat" where
  "digit_value c = of_char c - 48"

definition nat_of_digits :: "string \<Rightarrow> nat" where
  "nat_of_digits ds = foldl (\<lambda>n c. 10 * n + digit_value c) 0 ds"

text \<open>
  \<open>int(s)\<close> for a string of digits and minus signs: an optional sign and at least one digit,
  or ValueError (\<open>None\<close>). The interpreter also refuses, with ValueError, a string of more
  than \<open>sys.int_max_str_digits\<close> = 4300 digits; leading zeros count, the sign does not.
\<close>

definition int_max_str_digits :: nat where
  "int_max_str_digits = 4300"

definition py_int :: "string \<Rightarrow> int option" where
  "py_int s =
     (case s of
        [] \<Rightarrow> None
      | c # cs \<Rightarrow>
          if c = CHR ''-''
          then (if cs \<noteq> [] \<and> list_all is_digit cs \<and> length cs \<le> int_max_str_digits
                then Some (- int (nat_of_digits cs)) else None)
          else (if list_all is_digit s \<and> length s \<le> int_max_str_digits
                then Some (int (nat_of_digits s)) else None))"

text \<open>Truth value of \<open>course_data["current"]\<close>: \<open>None\<close> and the empty list are false.\<close>

definition current_truthy :: "store \<Rightarrow> bool" where
  "current_truthy cd = (case current cd of None \<Rightarrow> False | Some courses \<Rightarrow> courses \<noteq> [])"

text \<open>\<open>len(course_data["malformed"])\<close>.\<close>

definition malformed_count :: "store \<Rightarrow> error + nat" where
  "malformed_count cd =
     (case malformed cd of None \<Rightarrow> Inl (KeyError ''malformed'') | Some m \<Rightarrow> Inr (length m))"

definition respond :: "error + payload \<Rightarrow> response" where
  "respond r = (case r of Inl e \<Rightarrow> Raised e | Inr p \<Rightarrow> OK p)"

text \<open>\<open>since >= course_data["initial_timestamp"]\<close>: an int is not ordered against None.\<close>

definition since_ge :: "int \<Rightarrow> int option \<Rightarrow> error + bool" where
  "since_ge since it = (case it of None \<Rightarrow> Inl TypeError | Some t \<Rightarrow> Inr (since \<ge> t))"

definition courses_since :: "string list \<Rightarrow> store \<Rightarrow> int \<Rightarrow> response" where
  "courses_since attrs cd since =
     (if current_truthy cd
      then respond
        (bind_err (since_ge since (initial_timestamp cd)) (\<lambda>incremental.
           if incremental
           then bind_err (compute_diff attrs cd since) (\<lambda>d.
                bind_err (malformed_count cd) (\<lambda>n.
                  Inr (Incremental d (timestamp cd) n)))
           else bind_err (malformed_count cd) (\<lambda>n.
                  Inr (NotIncremental (the (current cd)) (timestamp cd) n))))
      else SendError SERVICE_UNAVAILABLE)"

text \<open>
  \<open>do_GET\<close>, with the store it leaves behind. The route \<open>/\<close> sends the file
  \<open>index.html\<close>.
\<close>

definition do_GET :: "string list \<Rightarrow> string \<Rightarrow> store \<Rightarrow> response \<times> store" where
  "do_GET attrs path cd =
     (if path = ''/'' then (IndexHtml, cd)
      else if startswith ''/api/v2/all-courses'' path then
        (if current_truthy cd
         then (respond (bind_err (malformed_count cd) (\<lambda>n.
                 Inr (AllCourses (the (current cd)) (timestamp cd) n))), cd)
         else (SendError SERVICE_UNAVAILABLE, cd))
      else case match_courses_since path of
        Some g \<Rightarrow>
          (case py_int g of
             None \<Rightarrow> (SendError BAD_REQUEST, cd)
           | Some since \<Rightarrow> (courses_since attrs cd since, cd))
      | None \<Rightarrow>
          if startswith ''/api/v2/malformed-courses'' path then
            (if current_truthy cd
             then (case malformed cd of
                     None \<Rightarrow> (Raised (KeyError ''malformed''), cd)
                   | Some m \<Rightarrow> (OK (MalformedCourses m), cd))
             else (SendError SERVICE_UNAVAILABLE, cd))
          else if startswith ''/experimental/course-data'' path then (OK (CourseData cd), cd)
          else (SendError NOT_FOUND, cd))"

section \<open>The update records of consecutive refreshes\<close>

text \<open>
  The entries that \<open>update_course_data\<close> appends to the history when the store holds the
  index \<open>ix\<close> and is refreshed with the indices of \<open>steps\<close>, one after the other, at the
  timestamps given with them; and the index the store holds afterwards.
\<close>

fun history :: "string list \<Rightarrow> index \<Rightarrow> (int \<times> index) list \<Rightarrow> error + (int \<times> update) list" where
  "history attrs ix [] = Inr []"
| "history attrs ix ((ts, ix') # steps) =
     bind_err (compute_update attrs ix ix') (\<lambda>u.
     bind_err (history attrs ix' steps) (\<lambda>h. Inr ((ts, u) # h)))"

fun last_index :: "index \<Rightarrow> (int \<times> index) list \<Rightarrow> index" where
  "last_index ix [] = ix"
| "last_index ix ((ts, ix') # steps) = last_index ix' steps"

text \<open>A sequence of refreshes, each a call of \<open>update_course_data\<close> with its arguments.\<close>

type_synonym refresh_args = "int \<times> course list \<times> index \<times> course list"

fun update_course_data_seq :: "string list \<Rightarrow> refresh_args list \<Rightarrow> store \<Rightarrow> error + store" where
  "update_course_data_seq attrs [] cd = Inr cd"
| "update_course_data_seq attrs ((ts, courses, ix, malformed_courses) # rs) cd =
     bind_err (update_course_data attrs ts courses ix malformed_courses cd)
       (update_course_data_seq attrs rs)"

definition step_of :: "refresh_args \<Rightarrow> int \<times> index" where
  "step_of r = (case r of (ts, courses, ix, malformed_courses) \<Rightarrow> (ts, ix))"

text \<open>
  The value of an attribute as \<open>!=\<close> compares it: two courses differ on a tracked
  attribute when these values differ.
\<close>

definition nv :: "course \<Rightarrow> string \<Rightarrow> val option" where
  "nv c x = map_option as_int (c x)"

text \<open>
  A refresh changes the tracked attribute \<open>x\<close> of the key \<open>k\<close> when the indices before and
  after it both hold the key, with courses that differ on \<open>x\<close>; a sequence of refreshes
  changes it when one of them does.
\<close>

definition changed_by :: "string list \<Rightarrow> index \<Rightarrow> index \<Rightarrow> key \<Rightarrow> string \<Rightarrow> bool" where
  "changed_by attrs ix ix' k x =
     (x \<in> set attrs \<and>
      (case map_of ix k of
         None \<Rightarrow> False
       | Some c \<Rightarrow> (case map_of ix' k of None \<Rightarrow> False | Some c' \<Rightarrow> nv c x \<noteq> nv c' x)))"

fun changed_in :: "string list \<Rightarrow> index \<Rightarrow> (int \<times> index) list \<Rightarrow> key \<Rightarrow> string \<Rightarrow> bool" where
  "changed_in attrs ix [] k x = False"
| "changed_in attrs ix ((ts, ix') # steps) k x =
     (changed_by attrs ix ix' k x \<or> changed_in attrs ix' steps k x)"

section \<open>Example data\<close>

text \<open>
  A course of the catalog, and the same course under a new name. The tracked attributes of the
  examples are the course name and the number of open seats.
\<close>

definition intro_cs :: course where
  "intro_cs =
     [''department'' \<mapsto> VStr ''CS'', ''courseNumber'' \<mapsto> VInt 101,
      ''courseCodeSuffix'' \<mapsto> VStr [], ''school'' \<mapsto> VStr ''HM'', ''section'' \<mapsto> VInt 1,
      ''courseName'' \<mapsto> VStr ''Intro'', ''openSeats'' \<mapsto> VInt 5]"

definition intro_cs_renamed :: course where
  "intro_cs_renamed = intro_cs(''courseName'' \<mapsto> VStr ''Intro 2'')"

definition intro_key :: key where
  "intro_key = [VStr ''CS'', VInt 101, VStr [], VStr ''HM'', VInt 1]"

definition tracked :: "string list" where
  "tracked = [''courseName'', ''openSeats'']"

definition renamed_store :: store where
  "renamed_store =
     \<lparr> current = Some [intro_cs_renamed], index = Some [(intro_key, intro_cs_renamed)],
       initial_timestamp = Some 100,
       updates = [(200, \<lparr> added = [], removed = [], modified = [(intro_key, [''courseName''])] \<rparr>)],
       timestamp = Some 200, malformed = Some [] \<rparr>"

text \<open>
  Three refreshes: an empty catalog at time 100, the course added at time 200, the course
  renamed at time 300; and the update records of the last two.
\<close>

definition ix1 :: index where
  "ix1 = [(intro_key, intro_cs)]"

definition ix2 :: index where
  "ix2 = [(intro_key, intro_cs_renamed)]"

definition u_add :: update where
  "u_add = \<lparr> added = [intro_key], removed = [], modified = [] \<rparr>"

definition u_mod :: update where
  "u_mod = \<lparr> added = [], removed = [], modified = [(intro_key, [''courseName''])] \<rparr>"

definition u_del :: update where
  "u_del = \<lparr> added = [], removed = [intro_key], modified = [] \<rparr>"

definition add_then_rename :: "operation list" where
  "add_then_rename =
     [Refresh 100 [] [] [], Refresh 200 [intro_cs] ix1 [],
      Refresh 300 [intro_cs_renamed] ix2 []]"

text \<open>The course renamed at time 200 and renamed back at time 300.\<close>

definition rename_and_back :: "operation list" where
  "rename_and_back =
     [Refresh 100 [intro_cs] ix1 [], Refresh 200 [intro_cs_renamed] ix2 [],
      Refresh 300 [intro_cs] ix1 []]"

text \<open>The course removed at time 200 and back, renamed, at time 300.\<close>

definition round_trip_store :: store where
  "round_trip_store =
     \<lparr> current = Some [intro_cs_renamed], index = Some ix2, initial_timestamp = Some 100,
       updates = [(200, u_del), (300, u_add)], timestamp = Some 300, malformed = Some [] \<rparr>"

text \<open>A hundred and three refreshes with the same catalog, at the times 0 to 102.\<close>

definition many_refreshes :: "refresh_args list" where
  "many_refreshes = map (\<lambda>n. (int n, [intro_cs], ix1, [])) [0 ..< 103]"

text \<open>The store after one successful refresh, at time 100, with an empty catalog.\<close>

definition empty_catalog_store :: store where
  "empty_catalog_store =
     \<lparr> current = Some [], index = Some [], initial_timestamp = Some 100, updates = [],
       timestamp = Some 100, malformed = Some [] \<rparr>"

text \<open>A reset, a refresh with the course at time 100, and a second reset.\<close>

definition reset_refresh_reset :: "operation list" where
  "reset_refresh_reset = [Reset, Refresh 100 [intro_cs] ix1 [], Reset]"





section \<open>Exceptions and loops\<close>

lemma bind_err_Inr:
  "bind_err m f = Inr y \<longleftrightarrow> (\<exists>x. m = Inr x \<and> f x = Inr y)"
  by (cases m) auto

lemma for_each_preserves:
  assumes step: "\<And>x s s'. f x s = Inr s' \<Longrightarrow> P s \<Longrightarrow> P s'"
  shows "for_each f xs s = Inr s' \<Longrightarrow> P s \<Longrightarrow> P s'"
proof (induction xs arbitrary: s)
  case Nil
  then show ?case by simp
next
  case (Cons x xs)
  from Cons.prems(1) obtain s1 where s1: "f x s = Inr s1" and rest: "for_each f xs s1 = Inr s'"
    by (auto simp: bind_err_Inr)
  from step [OF s1 Cons.prems(2)] have "P s1" .
  with Cons.IH [OF rest] show ?case .
qed

lemma apply_modified_Inr:
  assumes "apply_modified (k, attrs) a = Inr a'"
  shows "k \<notin> set (acc_removed a)"
    and "acc_added a' = acc_added a"
    and "acc_removed a' = acc_removed a"
    and "map_of (acc_modified a') =
           (map_of (acc_modified a))
             (k \<mapsto> List.union (case map_of (acc_modified a) k of None \<Rightarrow> [] | Some s \<Rightarrow> s)
                     (remdups attrs))"
  using assms
  by (auto simp: apply_modified_def Let_def AList.update_conv' split: if_splits)

lemma apply_added_Inr:
  assumes "apply_added attrs k a = Inr a'"
  shows "map_of (acc_modified a) k = None"
    and "k \<notin> set (acc_added a)"
    and "set (acc_added a') = (if k \<in> set (acc_removed a) then set (acc_added a)
                               else insert k (set (acc_added a)))"
    and "set (acc_removed a') = set (acc_removed a) - {k}"
    and "map_of (acc_modified a') =
           (if k \<in> set (acc_removed a) then (map_of (acc_modified a))(k \<mapsto> remdups attrs)
            else map_of (acc_modified a))"
  using assms
  by (auto simp: apply_added_def AList.update_conv' split: if_splits)

lemma apply_removed_Inr:
  assumes "apply_removed k a = Inr a'"
  shows "k \<notin> set (acc_removed a)"
    and "set (acc_added a') = set (acc_added a) - {k}"
    and "set (acc_removed a') = (if k \<in> set (acc_added a) then set (acc_removed a)
                                 else insert k (set (acc_removed a)))"
    and "map_of (acc_modified a') = (map_of (acc_modified a))(k := None)"
  using assms
  by (auto simp: apply_removed_def Let_def AList.delete_conv' fun_eq_iff split: if_splits)

lemma modified_loop_keys:
  "modified_loop attrs old new ks = Inr m \<Longrightarrow> fst ` set m \<subseteq> set ks"
proof (induction ks arbitrary: m)
  case Nil then show ?case by simp
next
  case (Cons k ks)
  from Cons.prems obtain as m' where
    "modified_loop attrs old new ks = Inr m'" and "m = (if as \<noteq> [] then (k, as) # m' else m')"
    by (auto simp: bind_err_Inr)
  with Cons.IH [of m'] show ?case by (auto split: if_splits)
qed

lemma compute_update_Inr:
  assumes "compute_update attrs old new = Inr u"
  shows "added u = filter (\<lambda>k. k \<notin> set (keys_of old)) (keys_of new)"
    and "removed u = filter (\<lambda>k. k \<notin> set (keys_of new)) (keys_of old)"
    and "modified_loop attrs old new (filter (\<lambda>k. k \<in> set (keys_of old)) (keys_of new))
           = Inr (modified u)"
  using assms by (auto simp: compute_update_def Let_def bind_err_Inr)

section \<open>Replay of a history with no entry after \<open>since\<close>\<close>

lemma replay_skips:
  "\<forall>tu \<in> set ups. fst tu \<le> since \<Longrightarrow>
     for_each (apply_update attrs since) ups a = Inr a"
proof (induction ups)
  case Nil
  show ?case by simp
next
  case (Cons tu ups)
  have "fst tu \<le> since" using Cons.prems by simp
  then have "apply_update attrs since tu a = Inr a"
    by (cases tu) (simp add: apply_update_def)
  moreover have "for_each (apply_update attrs since) ups a = Inr a"
    using Cons.IH Cons.prems by simp
  ultimately show ?case by simp
qed

text \<open>
  C10: when no retained update record has a timestamp after \<open>since\<close> (a client polling with
  the latest refresh timestamp), \<open>compute_diff\<close> returns a diff whose three collections are
  empty, in every store.
\<close>

theorem compute_diff_up_to_date:
  assumes "\<forall>tu \<in> set (updates cd). fst tu \<le> since"
  shows "compute_diff attrs cd since =
           Inr \<lparr> added_courses = [], removed_courses = [], modified_courses = [] \<rparr>"
proof -
  have "replay attrs (updates cd) since = Inr empty_acc"
    unfolding replay_def using assms by (rule replay_skips)
  then show ?thesis
    by (simp add: compute_diff_def materialize_def empty_acc_def)
qed

theorem compute_diff_up_to_date_witness:
  "updates renamed_store \<noteq> [] \<and>
   compute_diff tracked renamed_store 200 =
     Inr \<lparr> added_courses = [], removed_courses = [], modified_courses = [] \<rparr>"
proof -
  have h: "\<forall>tu \<in> set (updates renamed_store). fst tu \<le> 200"
    by (simp add: renamed_store_def)
  show ?thesis
    using compute_diff_up_to_date [OF h, of tracked] by (simp add: renamed_store_def)
qed

section \<open>Disjointness of the three collections\<close>

definition disjoint_acc :: "acc \<Rightarrow> bool" where
  "disjoint_acc a =
     (set (acc_removed a) \<inter> set (acc_added a) = {} \<and>
      set (acc_removed a) \<inter> dom (map_of (acc_modified a)) = {})"

lemma apply_modified_disjoint:
  assumes "apply_modified ka a = Inr a'" and "disjoint_acc a"
  shows "disjoint_acc a'"
proof (cases ka)
  case (Pair k attrs)
  note r = apply_modified_Inr [OF assms(1) [unfolded Pair]]
  show ?thesis
    using assms(2) r unfolding disjoint_acc_def by (auto split: if_splits)
qed

lemma apply_added_disjoint:
  assumes "apply_added attrs k a = Inr a'" and "disjoint_acc a"
  shows "disjoint_acc a'"
proof -
  note r = apply_added_Inr [OF assms(1)]
  show ?thesis
    using assms(2) r unfolding disjoint_acc_def by (auto split: if_splits)
qed

lemma apply_removed_disjoint:
  assumes "apply_removed k a = Inr a'" and "disjoint_acc a"
  shows "disjoint_acc a'"
proof -
  note r = apply_removed_Inr [OF assms(1)]
  show ?thesis
    using assms(2) r unfolding disjoint_acc_def by (auto split: if_splits)
qed

lemma apply_update_disjoint:
  assumes "apply_update attrs since tu a = Inr a'" and "disjoint_acc a"
  shows "disjoint_acc a'"
proof (cases tu)
  case (Pair ts u)
  show ?thesis
  proof (cases "ts > since")
    case False
    with assms Pair show ?thesis by (simp add: apply_update_def)
  next
    case True
    with assms(1) Pair obtain a1 a2 where
      m: "for_each apply_modified (modified u) a = Inr a1" and
      ad: "for_each (apply_added attrs) (added u) a1 = Inr a2" and
      r: "for_each apply_removed (removed u) a2 = Inr a'"
      by (auto simp: apply_update_def bind_err_Inr)
    have "disjoint_acc a1"
      using apply_modified_disjoint m assms(2) by (rule for_each_preserves)
    with apply_added_disjoint ad have "disjoint_acc a2" by (rule for_each_preserves)
    with apply_removed_disjoint r show ?thesis by (rule for_each_preserves)
  qed
qed

lemma replay_disjoint:
  assumes "replay attrs ups since = Inr a"
  shows "disjoint_acc a"
proof -
  have "disjoint_acc empty_acc" by (simp add: disjoint_acc_def empty_acc_def)
  with apply_update_disjoint assms [unfolded replay_def] show ?thesis
    by (rule for_each_preserves)
qed

lemma compute_update_disjoint:
  assumes "compute_update attrs old new = Inr u"
  shows "set (added u) \<inter> set (removed u) = {}"
    and "set (added u) \<inter> fst ` set (modified u) = {}"
    and "set (removed u) \<inter> fst ` set (modified u) = {}"
proof -
  note u = compute_update_Inr [OF assms]
  from modified_loop_keys [OF u(3)]
  have sub: "fst ` set (modified u) \<subseteq> set (keys_of old) \<inter> set (keys_of new)"
    by auto
  show "set (added u) \<inter> set (removed u) = {}" using u(1,2) by auto
  show "set (added u) \<inter> fst ` set (modified u) = {}" using u(1) sub by auto
  show "set (removed u) \<inter> fst ` set (modified u) = {}" using u(2) sub by auto
qed

text \<open>
  C3, as stated, fails for the replay: a course added by one refresh and renamed by the next
  is in \<open>added\<close> and in \<open>modified\<close> of the diff since the time before both. The update
  records are the ones \<open>compute_update\<close> produces, and the store is the one the three
  refreshes leave.
\<close>

theorem replay_added_and_modified_counterexample:
  "compute_update tracked [] ix1 = Inr u_add \<and>
   compute_update tracked ix1 ix2 = Inr u_mod \<and>
   replay tracked [(200, u_add), (300, u_mod)] 100 =
     Inr \<lparr> acc_added = [intro_key], acc_removed = [],
           acc_modified = [(intro_key, [''courseName''])] \<rparr> \<and>
   (case run tracked add_then_rename module_loaded of
      Inl e \<Rightarrow> False
    | Inr w \<Rightarrow>
        updates (deref w) = [(200, u_add), (300, u_mod)] \<and>
        (case compute_diff tracked (deref w) 100 of
           Inl e \<Rightarrow> False
         | Inr d \<Rightarrow> map course_to_index_key (added_courses d) = [Inr intro_key] \<and>
                   map course_to_index_key (modified_courses d) = [Inr intro_key]))"
  by code_simp

text \<open>
  C3, amended: in every update record that \<open>compute_update\<close> returns, no key is in two of
  \<open>added\<close>, \<open>removed\<close> and \<open>modified\<close>; in the accumulators that the replay of any history
  ends with, no key of \<open>removed\<close> is in \<open>added\<close> or in \<open>modified\<close>. (A key can be in both
  \<open>added\<close> and \<open>modified\<close> of the replay.)
\<close>

theorem collections_disjoint:
  "(compute_update attrs old new = Inr u \<longrightarrow>
      set (added u) \<inter> set (removed u) = {} \<and>
      set (added u) \<inter> fst ` set (modified u) = {} \<and>
      set (removed u) \<inter> fst ` set (modified u) = {}) \<and>
   (replay attrs ups since = Inr a \<longrightarrow>
      set (acc_removed a) \<inter> set (acc_added a) = {} \<and>
      set (acc_removed a) \<inter> fst ` set (acc_modified a) = {})"
proof (intro conjI impI)
  assume u: "compute_update attrs old new = Inr u"
  show "set (added u) \<inter> set (removed u) = {}" by (rule compute_update_disjoint(1) [OF u])
  show "set (added u) \<inter> fst ` set (modified u) = {}" by (rule compute_update_disjoint(2) [OF u])
  show "set (removed u) \<inter> fst ` set (modified u) = {}" by (rule compute_update_disjoint(3) [OF u])
next
  assume "replay attrs ups since = Inr a"
  then have d: "disjoint_acc a" by (rule replay_disjoint)
  show "set (acc_removed a) \<inter> set (acc_added a) = {}"
    using d by (simp add: disjoint_acc_def)
  show "set (acc_removed a) \<inter> fst ` set (acc_modified a) = {}"
    using d by (simp add: disjoint_acc_def dom_map_of_conv_image_fst)
qed

theorem collections_disjoint_witness:
  "compute_update tracked ix1 ix2 = Inr u_mod \<and>
   set (added u_mod) \<inter> fst ` set (modified u_mod) = {} \<and>
   replay tracked [(200, u_mod), (300, u_del)] 100 =
     Inr \<lparr> acc_added = [], acc_removed = [intro_key], acc_modified = [] \<rparr> \<and>
   set [intro_key] \<inter> fst ` set ([] :: (key \<times> string list) list) = {}"
proof -
  have h1: "compute_update tracked ix1 ix2 = Inr u_mod"
    by code_simp
  have h2: "replay tracked [(200, u_mod), (300, u_del)] 100 =
     Inr \<lparr> acc_added = [], acc_removed = [intro_key], acc_modified = [] \<rparr>"
    by code_simp
  show ?thesis
    using h1 h2
      collections_disjoint [where attrs = tracked and old = ix1 and new = ix2 and u = u_mod
        and ups = "[(200, u_mod), (300, u_del)]" and since = 100
        and a = "\<lparr> acc_added = [], acc_removed = [intro_key], acc_modified = [] \<rparr>"]
    by simp
qed

section \<open>Replay of the update records of consecutive refreshes\<close>

lemma changed_attrs_set:
  "changed_attrs attrs co cn = Inr as \<Longrightarrow>
     set as = {x \<in> set attrs. nv co x \<noteq> nv cn x}"
proof (induction attrs arbitrary: as)
  case Nil
  then show ?case by simp
next
  case (Cons x attrs)
  from Cons.prems obtain ov nw as' where
    ov: "getitem co x = Inr ov" and nw: "getitem cn x = Inr nw" and
    rest: "changed_attrs attrs co cn = Inr as'" and
    as: "as = (if \<not> py_eq ov nw then x # as' else as')"
    by (auto simp: bind_err_Inr)
  from ov have co: "co x = Some ov" by (auto simp: getitem_def split: option.splits)
  from nw have cn: "cn x = Some nw" by (auto simp: getitem_def split: option.splits)
  have d: "nv co x \<noteq> nv cn x \<longleftrightarrow> \<not> py_eq ov nw"
    by (simp add: nv_def co cn py_eq_def)
  from Cons.IH [OF rest] as d show ?case by auto
qed

lemma keys_of_set [simp]: "set (keys_of ix) = fst ` set ix"
  by (simp add: keys_of_def)

lemma keys_of_distinct [simp]: "distinct (keys_of ix)"
  by (simp add: keys_of_def)

lemma modified_loop_map_of:
  assumes "modified_loop attrs old new ks = Inr m" and "distinct ks" and "k \<in> set ks"
  shows "\<exists>co cn as. map_of old k = Some co \<and> map_of new k = Some cn \<and>
           changed_attrs attrs co cn = Inr as \<and>
           map_of m k = (if as \<noteq> [] then Some as else None)"
  using assms
proof (induction ks arbitrary: m)
  case Nil
  then show ?case by simp
next
  case (Cons k' ks)
  from Cons.prems(1) obtain co cn as m' where
    co: "index_get old k' = Inr co" and cn: "index_get new k' = Inr cn" and
    as: "changed_attrs attrs co cn = Inr as" and
    rest: "modified_loop attrs old new ks = Inr m'" and
    m: "m = (if as \<noteq> [] then (k', as) # m' else m')"
    by (auto simp: bind_err_Inr)
  from modified_loop_keys [OF rest] Cons.prems(2) have notin: "k' \<notin> fst ` set m'" by auto
  then have none: "map_of m' k' = None" by (simp add: map_of_eq_None_iff)
  show ?case
  proof (cases "k = k'")
    case True
    from co have "map_of old k' = Some co" by (auto simp: index_get_def split: option.splits)
    moreover from cn have "map_of new k' = Some cn" by (auto simp: index_get_def split: option.splits)
    ultimately show ?thesis using as m none True by auto
  next
    case False
    with Cons.prems have "k \<in> set ks" "distinct ks" by auto
    from Cons.IH [OF rest this(2) this(1)] m False show ?thesis by auto
  qed
qed

lemma modified_loop_distinct:
  "modified_loop attrs old new ks = Inr m \<Longrightarrow> distinct ks \<Longrightarrow> distinct (map fst m)"
proof (induction ks arbitrary: m)
  case Nil
  then show ?case by simp
next
  case (Cons k' ks)
  from Cons.prems(1) obtain as m' where
    rest: "modified_loop attrs old new ks = Inr m'" and
    m: "m = (if as \<noteq> [] then (k', as) # m' else m')"
    by (auto simp: bind_err_Inr)
  from modified_loop_keys [OF rest] Cons.prems(2) have notin: "k' \<notin> fst ` set m'" by auto
  from Cons.IH [OF rest] Cons.prems(2) have "distinct (map fst m')" by simp
  with notin m show ?case by auto
qed

text \<open>What an update record says, in terms of the two indices.\<close>

lemma compute_update_sets:
  assumes "compute_update attrs old new = Inr u"
  shows "set (added u) = fst ` set new - fst ` set old"
    and "set (removed u) = fst ` set old - fst ` set new"
    and "distinct (added u)" and "distinct (removed u)"
    and "distinct (map fst (modified u))"
    and "fst ` set (modified u) \<subseteq> fst ` set old \<inter> fst ` set new"
proof -
  note u = compute_update_Inr [OF assms]
  show "set (added u) = fst ` set new - fst ` set old" using u(1) by auto
  show "set (removed u) = fst ` set old - fst ` set new" using u(2) by auto
  show "distinct (added u)" using u(1) by simp
  show "distinct (removed u)" using u(2) by simp
  show "distinct (map fst (modified u))"
    using modified_loop_distinct [OF u(3)] by simp
  show "fst ` set (modified u) \<subseteq> fst ` set old \<inter> fst ` set new"
    using modified_loop_keys [OF u(3)] by auto
qed

lemma compute_update_modified:
  assumes "compute_update attrs old new = Inr u"
    and "k \<in> fst ` set old" and "k \<in> fst ` set new"
  shows "\<exists>co cn. map_of old k = Some co \<and> map_of new k = Some cn \<and>
           (if {x \<in> set attrs. nv co x \<noteq> nv cn x} = {} then map_of (modified u) k = None
            else \<exists>as. map_of (modified u) k = Some as \<and>
                   set as = {x \<in> set attrs. nv co x \<noteq> nv cn x})"
proof -
  note u = compute_update_Inr [OF assms(1)]
  have "k \<in> set (filter (\<lambda>k. k \<in> set (keys_of old)) (keys_of new))"
    using assms(2,3) by simp
  from modified_loop_map_of [OF u(3) _ this]
  obtain co cn as where co: "map_of old k = Some co" and cn: "map_of new k = Some cn"
    and as: "changed_attrs attrs co cn = Inr as"
    and m: "map_of (modified u) k = (if as \<noteq> [] then Some as else None)"
    by auto
  from changed_attrs_set [OF as] have s: "set as = {x \<in> set attrs. nv co x \<noteq> nv cn x}" .
  show ?thesis
  proof (cases "as = []")
    case True
    with s m co cn show ?thesis by auto
  next
    case False
    then have "set as \<noteq> {}" by simp
    with s m co cn False show ?thesis by auto
  qed
qed

lemma apply_modified_ok:
  "k \<notin> set (acc_removed a) \<Longrightarrow> \<exists>a'. apply_modified (k, attrs) a = Inr a'"
  by (simp add: apply_modified_def Let_def)

lemma apply_added_ok:
  "map_of (acc_modified a) k = None \<Longrightarrow> k \<notin> set (acc_added a) \<Longrightarrow>
     \<exists>a'. apply_added attrs k a = Inr a'"
  by (simp add: apply_added_def)

lemma apply_removed_ok:
  "k \<notin> set (acc_removed a) \<Longrightarrow> \<exists>a'. apply_removed k a = Inr a'"
  by (simp add: apply_removed_def Let_def)

text \<open>The three loops over one update record, each as one step on the accumulators.\<close>

lemma modified_pass:
  assumes "distinct (map fst ms)" and "fst ` set ms \<inter> set (acc_removed a) = {}"
  shows "\<exists>a'. for_each apply_modified ms a = Inr a' \<and>
           acc_added a' = acc_added a \<and> acc_removed a' = acc_removed a \<and>
           (\<forall>k. map_of (acc_modified a') k =
              (case map_of ms k of
                 None \<Rightarrow> map_of (acc_modified a) k
               | Some as \<Rightarrow> Some (List.union
                   (case map_of (acc_modified a) k of None \<Rightarrow> [] | Some s \<Rightarrow> s)
                   (remdups as))))"
  using assms
proof (induction ms arbitrary: a)
  case Nil
  show ?case by simp
next
  case (Cons p ms)
  obtain k as where p: "p = (k, as)" by (cases p)
  from Cons.prems p have kr: "k \<notin> set (acc_removed a)" by auto
  from apply_modified_ok [OF kr] obtain a1 where a1: "apply_modified (k, as) a = Inr a1" by blast
  note r = apply_modified_Inr [OF a1]
  from Cons.prems p have d: "distinct (map fst ms)" and kn: "k \<notin> fst ` set ms" by auto
  from Cons.prems r(3) have "fst ` set ms \<inter> set (acc_removed a1) = {}" by auto
  from Cons.IH [OF d this] obtain a' where
    loop: "for_each apply_modified ms a1 = Inr a'" and
    ad: "acc_added a' = acc_added a1" and rm: "acc_removed a' = acc_removed a1" and
    md: "\<And>k'. map_of (acc_modified a') k' =
              (case map_of ms k' of
                 None \<Rightarrow> map_of (acc_modified a1) k'
               | Some as \<Rightarrow> Some (List.union
                   (case map_of (acc_modified a1) k' of None \<Rightarrow> [] | Some s \<Rightarrow> s)
                   (remdups as)))"
    by blast
  from kn have none: "map_of ms k = None" by (simp add: map_of_eq_None_iff)
  have "for_each apply_modified (p # ms) a = Inr a'" using a1 loop p by simp
  moreover have "acc_added a' = acc_added a" using ad r(2) by simp
  moreover have "acc_removed a' = acc_removed a" using rm r(3) by simp
  moreover have "\<forall>k'. map_of (acc_modified a') k' =
              (case map_of (p # ms) k' of
                 None \<Rightarrow> map_of (acc_modified a) k'
               | Some as \<Rightarrow> Some (List.union
                   (case map_of (acc_modified a) k' of None \<Rightarrow> [] | Some s \<Rightarrow> s)
                   (remdups as)))"
  proof
    fix k'
    show "map_of (acc_modified a') k' =
              (case map_of (p # ms) k' of
                 None \<Rightarrow> map_of (acc_modified a) k'
               | Some as \<Rightarrow> Some (List.union
                   (case map_of (acc_modified a) k' of None \<Rightarrow> [] | Some s \<Rightarrow> s)
                   (remdups as)))"
    proof (cases "k' = k")
      case True
      then show ?thesis using md [of k] none r(4) p by simp
    next
      case False
      then have "map_of (acc_modified a1) k' = map_of (acc_modified a) k'"
        using r(4) by simp
      with False show ?thesis using md [of k'] p by (simp split: option.split)
    qed
  qed
  ultimately show ?case by blast
qed

lemma added_pass:
  assumes "distinct ks" and "set ks \<inter> set (acc_added a) = {}"
    and "set ks \<inter> dom (map_of (acc_modified a)) = {}"
  shows "\<exists>a'. for_each (apply_added attrs) ks a = Inr a' \<and>
           set (acc_added a') = set (acc_added a) \<union> (set ks - set (acc_removed a)) \<and>
           set (acc_removed a') = set (acc_removed a) - set ks \<and>
           (\<forall>k. map_of (acc_modified a') k =
              (if k \<in> set ks \<inter> set (acc_removed a) then Some (remdups attrs)
               else map_of (acc_modified a) k))"
  using assms
proof (induction ks arbitrary: a)
  case Nil
  show ?case by simp
next
  case (Cons k ks)
  from Cons.prems have km: "map_of (acc_modified a) k = None" and ka: "k \<notin> set (acc_added a)"
    by auto
  from apply_added_ok [OF km ka] obtain a1 where a1: "apply_added attrs k a = Inr a1" by blast
  note r = apply_added_Inr [OF a1]
  from Cons.prems have d: "distinct ks" and kn: "k \<notin> set ks" by auto
  have p1: "set ks \<inter> set (acc_added a1) = {}" using Cons.prems(2) kn r(3) by (auto split: if_splits)
  have p2: "set ks \<inter> dom (map_of (acc_modified a1)) = {}"
    using Cons.prems(3) kn r(5) by (auto split: if_splits)
  from Cons.IH [OF d p1 p2] obtain a' where
    loop: "for_each (apply_added attrs) ks a1 = Inr a'" and
    ad: "set (acc_added a') = set (acc_added a1) \<union> (set ks - set (acc_removed a1))" and
    rm: "set (acc_removed a') = set (acc_removed a1) - set ks" and
    md: "\<And>k'. map_of (acc_modified a') k' =
              (if k' \<in> set ks \<inter> set (acc_removed a1) then Some (remdups attrs)
               else map_of (acc_modified a1) k')"
    by blast
  have "for_each (apply_added attrs) (k # ks) a = Inr a'" using a1 loop by simp
  moreover have "set (acc_added a') = set (acc_added a) \<union> (set (k # ks) - set (acc_removed a))"
    using ad r(3,4) kn by (auto split: if_splits)
  moreover have "set (acc_removed a') = set (acc_removed a) - set (k # ks)"
    using rm r(4) by auto
  moreover have "\<forall>k'. map_of (acc_modified a') k' =
              (if k' \<in> set (k # ks) \<inter> set (acc_removed a) then Some (remdups attrs)
               else map_of (acc_modified a) k')"
  proof
    fix k'
    show "map_of (acc_modified a') k' =
              (if k' \<in> set (k # ks) \<inter> set (acc_removed a) then Some (remdups attrs)
               else map_of (acc_modified a) k')"
      using md [of k'] r(4,5) kn by (cases "k' = k") (auto split: if_splits)
  qed
  ultimately show ?case by blast
qed

lemma removed_pass:
  assumes "distinct ks" and "set ks \<inter> set (acc_removed a) = {}"
  shows "\<exists>a'. for_each apply_removed ks a = Inr a' \<and>
           set (acc_added a') = set (acc_added a) - set ks \<and>
           set (acc_removed a') = set (acc_removed a) \<union> (set ks - set (acc_added a)) \<and>
           (\<forall>k. map_of (acc_modified a') k =
              (if k \<in> set ks then None else map_of (acc_modified a) k))"
  using assms
proof (induction ks arbitrary: a)
  case Nil
  show ?case by simp
next
  case (Cons k ks)
  from Cons.prems have kr: "k \<notin> set (acc_removed a)" by auto
  from apply_removed_ok [OF kr] obtain a1 where a1: "apply_removed k a = Inr a1" by blast
  note r = apply_removed_Inr [OF a1]
  from Cons.prems have d: "distinct ks" and kn: "k \<notin> set ks" by auto
  have p: "set ks \<inter> set (acc_removed a1) = {}"
    using Cons.prems(2) kn r(3) by (auto split: if_splits)
  from Cons.IH [OF d p] obtain a' where
    loop: "for_each apply_removed ks a1 = Inr a'" and
    ad: "set (acc_added a') = set (acc_added a1) - set ks" and
    rm: "set (acc_removed a') = set (acc_removed a1) \<union> (set ks - set (acc_added a1))" and
    md: "\<And>k'. map_of (acc_modified a') k' =
              (if k' \<in> set ks then None else map_of (acc_modified a1) k')"
    by blast
  have "for_each apply_removed (k # ks) a = Inr a'" using a1 loop by simp
  moreover have "set (acc_added a') = set (acc_added a) - set (k # ks)"
    using ad r(2) by auto
  moreover have "set (acc_removed a') = set (acc_removed a) \<union> (set (k # ks) - set (acc_added a))"
    using rm r(2,3) kn by (auto split: if_splits)
  moreover have "\<forall>k'. map_of (acc_modified a') k' =
              (if k' \<in> set (k # ks) then None else map_of (acc_modified a) k')"
  proof
    fix k'
    show "map_of (acc_modified a') k' =
              (if k' \<in> set (k # ks) then None else map_of (acc_modified a) k')"
      using md [of k'] r(4) by (cases "k' = k") auto
  qed
  ultimately show ?case by blast
qed

text \<open>
  The invariant of the replay: what the accumulators hold after the update records that lead
  from the index \<open>ix0\<close> to the index \<open>ix\<close>. The set \<open>gone\<close> holds keys that were missing
  from an index on the way.
\<close>

definition replay_inv :: "string list \<Rightarrow> index \<Rightarrow> index \<Rightarrow> key set \<Rightarrow> acc \<Rightarrow> bool" where
  "replay_inv attrs ix0 ix gone a \<longleftrightarrow>
     set (acc_added a) = fst ` set ix - fst ` set ix0 \<and>
     set (acc_removed a) = fst ` set ix0 - fst ` set ix \<and>
     (\<forall>k bs. map_of (acc_modified a) k = Some bs \<longrightarrow>
        k \<in> fst ` set ix \<and> set bs \<subseteq> set attrs) \<and>
     (\<forall>k c0 c x. map_of ix0 k = Some c0 \<longrightarrow> map_of ix k = Some c \<longrightarrow>
        x \<in> set attrs \<longrightarrow> nv c0 x \<noteq> nv c x \<longrightarrow>
        (\<exists>bs. map_of (acc_modified a) k = Some bs \<and> x \<in> set bs)) \<and>
     (\<forall>k. k \<in> gone \<longrightarrow> k \<in> fst ` set ix0 \<longrightarrow> k \<in> fst ` set ix \<longrightarrow>
        (\<exists>bs. map_of (acc_modified a) k = Some bs \<and> set bs = set attrs))"

text \<open>
  One update record, key by key: what the three loops make of the entry of a key in
  \<open>modified\<close>, for the record between the indices \<open>ix\<close> and \<open>ix'\<close>.
\<close>

definition keywise :: "string list \<Rightarrow> index \<Rightarrow> index \<Rightarrow> index \<Rightarrow> update \<Rightarrow> acc \<Rightarrow> acc \<Rightarrow> bool" where
  "keywise attrs ix0 ix ix' u a a' \<longleftrightarrow>
     (\<forall>k. k \<in> fst ` set ix' \<longrightarrow> k \<notin> fst ` set ix \<longrightarrow>
        map_of (acc_modified a') k =
          (if k \<in> fst ` set ix0 then Some (remdups attrs) else None)) \<and>
     (\<forall>k. k \<notin> fst ` set ix' \<longrightarrow> map_of (acc_modified a') k = None) \<and>
     (\<forall>k. k \<in> fst ` set ix' \<longrightarrow> k \<in> fst ` set ix \<longrightarrow> map_of (modified u) k = None \<longrightarrow>
        map_of (acc_modified a') k = map_of (acc_modified a) k) \<and>
     (\<forall>k as. k \<in> fst ` set ix' \<longrightarrow> k \<in> fst ` set ix \<longrightarrow> map_of (modified u) k = Some as \<longrightarrow>
        (\<exists>bs. map_of (acc_modified a') k = Some bs \<and>
           set bs = (case map_of (acc_modified a) k of None \<Rightarrow> {} | Some s \<Rightarrow> set s) \<union> set as))"

text \<open>
  The second invariant bounds \<open>modified\<close> from above: an entry holds all tracked attributes
  of a key of \<open>ix0\<close> that was missing on the way, or only attributes of \<open>ch\<close>, the changes
  seen so far.
\<close>

definition replay_upper ::
  "string list \<Rightarrow> index \<Rightarrow> index \<Rightarrow> key set \<Rightarrow> (key \<times> string) set \<Rightarrow> acc \<Rightarrow> bool" where
  "replay_upper attrs ix0 ix gone ch a \<longleftrightarrow>
     (\<forall>k. k \<in> fst ` set ix0 \<longrightarrow> k \<notin> fst ` set ix \<longrightarrow> k \<in> gone) \<and>
     (\<forall>k bs. map_of (acc_modified a) k = Some bs \<longrightarrow>
        (k \<in> gone \<and> k \<in> fst ` set ix0 \<and> set bs = set attrs) \<or>
        (bs \<noteq> [] \<and> (\<forall>x \<in> set bs. (k, x) \<in> ch)))"

lemma replay_inv_start: "replay_inv attrs ix0 ix0 {} empty_acc"
  by (simp add: replay_inv_def empty_acc_def)

lemma modified_entry:
  assumes u: "compute_update attrs ix ix' = Inr u"
    and m: "map_of (modified u) k = Some as"
  shows "k \<in> fst ` set ix" and "k \<in> fst ` set ix'"
    and "\<exists>co cn. map_of ix k = Some co \<and> map_of ix' k = Some cn \<and>
           set as = {x \<in> set attrs. nv co x \<noteq> nv cn x}"
proof -
  from m have "(k, as) \<in> set (modified u)" by (rule map_of_SomeD)
  then have "k \<in> fst ` set (modified u)" by force
  with compute_update_sets(6) [OF u] show k: "k \<in> fst ` set ix" and k': "k \<in> fst ` set ix'"
    by auto
  from compute_update_modified [OF u k k'] m
  show "\<exists>co cn. map_of ix k = Some co \<and> map_of ix' k = Some cn \<and>
           set as = {x \<in> set attrs. nv co x \<noteq> nv cn x}"
    by (auto split: if_splits)
qed

lemma replay_invD:
  assumes "replay_inv attrs ix0 ix gone a"
  shows "set (acc_added a) = fst ` set ix - fst ` set ix0"
    and "set (acc_removed a) = fst ` set ix0 - fst ` set ix"
    and "\<And>k bs. map_of (acc_modified a) k = Some bs \<Longrightarrow>
           k \<in> fst ` set ix \<and> set bs \<subseteq> set attrs"
    and "\<And>k c0 c x. map_of ix0 k = Some c0 \<Longrightarrow> map_of ix k = Some c \<Longrightarrow>
           x \<in> set attrs \<Longrightarrow> nv c0 x \<noteq> nv c x \<Longrightarrow>
           \<exists>bs. map_of (acc_modified a) k = Some bs \<and> x \<in> set bs"
    and "\<And>k. k \<in> gone \<Longrightarrow> k \<in> fst ` set ix0 \<Longrightarrow> k \<in> fst ` set ix \<Longrightarrow>
           \<exists>bs. map_of (acc_modified a) k = Some bs \<and> set bs = set attrs"
proof -
  show "set (acc_added a) = fst ` set ix - fst ` set ix0"
    using assms by (simp add: replay_inv_def)
  show "set (acc_removed a) = fst ` set ix0 - fst ` set ix"
    using assms by (simp add: replay_inv_def)
  show "\<And>k bs. map_of (acc_modified a) k = Some bs \<Longrightarrow>
           k \<in> fst ` set ix \<and> set bs \<subseteq> set attrs"
    using assms unfolding replay_inv_def by (elim conjE) (erule allE, erule allE, erule mp)
  show "\<And>k c0 c x. map_of ix0 k = Some c0 \<Longrightarrow> map_of ix k = Some c \<Longrightarrow>
           x \<in> set attrs \<Longrightarrow> nv c0 x \<noteq> nv c x \<Longrightarrow>
           \<exists>bs. map_of (acc_modified a) k = Some bs \<and> x \<in> set bs"
  proof -
    fix k c0 c x
    assume h: "map_of ix0 k = Some c0" "map_of ix k = Some c" "x \<in> set attrs" "nv c0 x \<noteq> nv c x"
    from assms have "\<forall>k c0 c x. map_of ix0 k = Some c0 \<longrightarrow> map_of ix k = Some c \<longrightarrow>
        x \<in> set attrs \<longrightarrow> nv c0 x \<noteq> nv c x \<longrightarrow>
        (\<exists>bs. map_of (acc_modified a) k = Some bs \<and> x \<in> set bs)"
      unfolding replay_inv_def by (elim conjE)
    then have "map_of ix0 k = Some c0 \<longrightarrow> map_of ix k = Some c \<longrightarrow>
        x \<in> set attrs \<longrightarrow> nv c0 x \<noteq> nv c x \<longrightarrow>
        (\<exists>bs. map_of (acc_modified a) k = Some bs \<and> x \<in> set bs)"
      by (elim allE)
    with h show "\<exists>bs. map_of (acc_modified a) k = Some bs \<and> x \<in> set bs" by (elim impE)
  qed
  show "\<And>k. k \<in> gone \<Longrightarrow> k \<in> fst ` set ix0 \<Longrightarrow> k \<in> fst ` set ix \<Longrightarrow>
           \<exists>bs. map_of (acc_modified a) k = Some bs \<and> set bs = set attrs"
  proof -
    fix k assume h: "k \<in> gone" "k \<in> fst ` set ix0" "k \<in> fst ` set ix"
    from assms have "\<forall>k. k \<in> gone \<longrightarrow> k \<in> fst ` set ix0 \<longrightarrow> k \<in> fst ` set ix \<longrightarrow>
        (\<exists>bs. map_of (acc_modified a) k = Some bs \<and> set bs = set attrs)"
      unfolding replay_inv_def by (elim conjE)
    then have "k \<in> gone \<longrightarrow> k \<in> fst ` set ix0 \<longrightarrow> k \<in> fst ` set ix \<longrightarrow>
        (\<exists>bs. map_of (acc_modified a) k = Some bs \<and> set bs = set attrs)"
      by (elim allE)
    with h show "\<exists>bs. map_of (acc_modified a) k = Some bs \<and> set bs = set attrs"
      by (elim impE)
  qed
qed


lemma replay_step_keywise:
  assumes inv: "replay_inv attrs ix0 ix gone a"
    and u: "compute_update attrs ix ix' = Inr u"
    and ts: "since < ts"
  shows "\<exists>a'. apply_update attrs since (ts, u) a = Inr a' \<and>
           replay_inv attrs ix0 ix' (gone \<union> - fst ` set ix') a' \<and>
           keywise attrs ix0 ix ix' u a a'"
proof -
  define K0 where "K0 = fst ` set ix0"
  define K where "K = fst ` set ix"
  define K' where "K' = fst ` set ix'"
  let ?M = "map_of (acc_modified a)"
  note us = compute_update_sets [OF u, folded K_def K'_def]
  note A = replay_invD(1) [OF inv, folded K0_def K_def]
    and R = replay_invD(2) [OF inv, folded K0_def K_def]
    and Mdom = replay_invD(3) [OF inv, folded K_def]
    and Mdiff = replay_invD(4) [OF inv]
    and Mgone = replay_invD(5) [OF inv, folded K0_def K_def]
  note mod_entry = modified_entry [OF u, folded K_def K'_def]
  note upd_mod = compute_update_modified [OF u, folded K_def K'_def]
  have muNone: "\<And>k. k \<notin> K \<or> k \<notin> K' \<Longrightarrow> map_of (modified u) k = None"
    using us(6) by (auto simp: map_of_eq_None_iff)
  \<comment> \<open>the loop over the modified keys\<close>
  have "fst ` set (modified u) \<inter> set (acc_removed a) = {}" using us(6) R by auto
  from modified_pass [OF us(5) this] obtain a1 where
    l1: "for_each apply_modified (modified u) a = Inr a1" and
    A1: "acc_added a1 = acc_added a" and R1: "acc_removed a1 = acc_removed a" and
    M1: "\<And>k. map_of (acc_modified a1) k =
              (case map_of (modified u) k of
                 None \<Rightarrow> ?M k
               | Some as \<Rightarrow> Some (List.union (case ?M k of None \<Rightarrow> [] | Some s \<Rightarrow> s)
                   (remdups as)))"
    by blast
  have M1same: "\<And>k. map_of (modified u) k = None \<Longrightarrow> map_of (acc_modified a1) k = ?M k"
    using M1 by simp
  have M1set: "\<And>k as. map_of (modified u) k = Some as \<Longrightarrow>
      \<exists>bs. map_of (acc_modified a1) k = Some bs \<and>
        set bs = (case ?M k of None \<Rightarrow> {} | Some s \<Rightarrow> set s) \<union> set as"
  proof -
    fix k as assume "map_of (modified u) k = Some as"
    with M1 [of k] show "\<exists>bs. map_of (acc_modified a1) k = Some bs \<and>
        set bs = (case ?M k of None \<Rightarrow> {} | Some s \<Rightarrow> set s) \<union> set as"
      by (cases "?M k") simp_all
  qed
  \<comment> \<open>the loop over the added keys\<close>
  have M1out: "\<And>k. k \<notin> K \<Longrightarrow> map_of (acc_modified a1) k = None"
  proof -
    fix k assume k: "k \<notin> K"
    then have "?M k = None" using Mdom [of k] by (cases "?M k") auto
    with muNone [of k] k M1 [of k] show "map_of (acc_modified a1) k = None" by simp
  qed
  have p1: "set (added u) \<inter> set (acc_added a1) = {}" using us(1) A A1 by auto
  have p2: "set (added u) \<inter> dom (map_of (acc_modified a1)) = {}"
    using us(1) M1out by (auto simp: domIff)
  from added_pass [OF us(3) p1 p2, of attrs] obtain a2 where
    l2: "for_each (apply_added attrs) (added u) a1 = Inr a2" and
    A2: "set (acc_added a2) = set (acc_added a1) \<union> (set (added u) - set (acc_removed a1))" and
    R2: "set (acc_removed a2) = set (acc_removed a1) - set (added u)" and
    M2: "\<And>k. map_of (acc_modified a2) k =
              (if k \<in> set (added u) \<inter> set (acc_removed a1) then Some (remdups attrs)
               else map_of (acc_modified a1) k)"
    by blast
  \<comment> \<open>the loop over the removed keys\<close>
  have p3: "set (removed u) \<inter> set (acc_removed a2) = {}" using us(2) R R1 R2 by auto
  from removed_pass [OF us(4) p3] obtain a3 where
    l3: "for_each apply_removed (removed u) a2 = Inr a3" and
    A3: "set (acc_added a3) = set (acc_added a2) - set (removed u)" and
    R3: "set (acc_removed a3) = set (acc_removed a2) \<union> (set (removed u) - set (acc_added a2))" and
    M3: "\<And>k. map_of (acc_modified a3) k =
              (if k \<in> set (removed u) then None else map_of (acc_modified a2) k)"
    by blast
  have run: "apply_update attrs since (ts, u) a = Inr a3"
    using ts l1 l2 l3 by (simp add: apply_update_def)
  \<comment> \<open>the accumulators after the three loops, key by key\<close>
  have Mround: "\<And>k. k \<in> K' \<Longrightarrow> k \<notin> K \<Longrightarrow> k \<in> K0 \<Longrightarrow>
      map_of (acc_modified a3) k = Some (remdups attrs)"
  proof -
    fix k assume k: "k \<in> K'" "k \<notin> K" "k \<in> K0"
    then have "k \<notin> set (removed u)" and "k \<in> set (added u) \<inter> set (acc_removed a1)"
      using us(1,2) R R1 by auto
    then show "map_of (acc_modified a3) k = Some (remdups attrs)"
      using M3 [of k] M2 [of k] by simp
  qed
  have Mnew: "\<And>k. k \<in> K' \<Longrightarrow> k \<notin> K \<Longrightarrow> k \<notin> K0 \<Longrightarrow>
      map_of (acc_modified a3) k = None"
  proof -
    fix k assume k: "k \<in> K'" "k \<notin> K" "k \<notin> K0"
    then have "k \<notin> set (removed u)" and "k \<notin> set (added u) \<inter> set (acc_removed a1)"
      using us(1,2) R R1 by auto
    then show "map_of (acc_modified a3) k = None"
      using M3 [of k] M2 [of k] M1out [OF k(2)] by auto
  qed
  have Mgonek: "\<And>k. k \<notin> K' \<Longrightarrow> map_of (acc_modified a3) k = None"
  proof -
    fix k assume k: "k \<notin> K'"
    show "map_of (acc_modified a3) k = None"
    proof (cases "k \<in> K")
      case True
      with k us(2) M3 show ?thesis by auto
    next
      case False
      with k us(1,2) M3 [of k] M2 [of k] M1out [of k] show ?thesis by auto
    qed
  qed
  have Mkept: "\<And>k. k \<in> K' \<Longrightarrow> k \<in> K \<Longrightarrow>
      map_of (acc_modified a3) k = map_of (acc_modified a1) k"
  proof -
    fix k assume k: "k \<in> K'" "k \<in> K"
    then have "k \<notin> set (removed u)" and "k \<notin> set (added u) \<inter> set (acc_removed a1)"
      using us(1,2) by auto
    then show "map_of (acc_modified a3) k = map_of (acc_modified a1) k"
      using M3 [of k] M2 [of k] by auto
  qed
  have c1: "set (acc_added a3) = K' - K0" using A3 A2 A1 R1 A R us(1,2) by auto
  have c2: "set (acc_removed a3) = K0 - K'" using R3 R2 A2 A1 R1 A R us(1,2) by auto
  have c3: "\<And>k bs. map_of (acc_modified a3) k = Some bs \<Longrightarrow> k \<in> K' \<and> set bs \<subseteq> set attrs"
  proof -
    fix k bs assume s: "map_of (acc_modified a3) k = Some bs"
    with Mgonek have k': "k \<in> K'" by (cases "k \<in> K'") auto
    show "k \<in> K' \<and> set bs \<subseteq> set attrs"
    proof (cases "k \<in> K")
      case False
      with k' s Mround [of k] Mnew [of k] show ?thesis by (cases "k \<in> K0") auto
    next
      case True
      with k' s Mkept have s1: "map_of (acc_modified a1) k = Some bs" by simp
      show ?thesis
      proof (cases "map_of (modified u) k")
        case None
        with s1 M1same [of k] Mdom [of k bs] k' show ?thesis by simp
      next
        case (Some as)
        from mod_entry(3) [OF Some] have as: "set as \<subseteq> set attrs" by auto
        have old: "(case ?M k of None \<Rightarrow> {} | Some s \<Rightarrow> set s) \<subseteq> set attrs"
          using Mdom [of k] by (cases "?M k") auto
        from M1set [OF Some] s1
        have "set bs = (case ?M k of None \<Rightarrow> {} | Some s \<Rightarrow> set s) \<union> set as" by auto
        with as old k' show ?thesis by blast
      qed
    qed
  qed
  have c4: "\<And>k c0 c x. map_of ix0 k = Some c0 \<Longrightarrow> map_of ix' k = Some c \<Longrightarrow>
        x \<in> set attrs \<Longrightarrow> nv c0 x \<noteq> nv c x \<Longrightarrow>
        \<exists>bs. map_of (acc_modified a3) k = Some bs \<and> x \<in> set bs"
  proof -
    fix k c0 c x
    assume c0: "map_of ix0 k = Some c0" and c: "map_of ix' k = Some c"
      and x: "x \<in> set attrs" and d: "nv c0 x \<noteq> nv c x"
    from c0 have k0: "k \<in> K0" unfolding K0_def by (metis domI dom_map_of_conv_image_fst)
    from c have k': "k \<in> K'" unfolding K'_def by (metis domI dom_map_of_conv_image_fst)
    show "\<exists>bs. map_of (acc_modified a3) k = Some bs \<and> x \<in> set bs"
    proof (cases "k \<in> K")
      case False
      with Mround [OF k' _ k0] x show ?thesis by simp
    next
      case True
      from upd_mod [OF True k'] c obtain co where
        co: "map_of ix k = Some co" and
        mu: "if {x \<in> set attrs. nv co x \<noteq> nv c x} = {} then map_of (modified u) k = None
             else \<exists>as. map_of (modified u) k = Some as \<and>
                    set as = {x \<in> set attrs. nv co x \<noteq> nv c x}"
        by auto
      show ?thesis
      proof (cases "nv c0 x = nv co x")
        case False
        from Mdiff [OF c0 co x False] obtain bs where bs: "?M k = Some bs" "x \<in> set bs"
          by blast
        have "\<exists>bs'. map_of (acc_modified a1) k = Some bs' \<and> x \<in> set bs'"
        proof (cases "map_of (modified u) k")
          case None
          with bs M1same [of k] show ?thesis by simp
        next
          case (Some as)
          from M1set [OF Some] bs show ?thesis by auto
        qed
        with Mkept [OF k' True] show ?thesis by simp
      next
        case same: True
        with d x have "x \<in> {x \<in> set attrs. nv co x \<noteq> nv c x}" by simp
        with mu obtain as where as: "map_of (modified u) k = Some as" "x \<in> set as"
          by (auto split: if_splits)
        from M1set [OF as(1)] as(2)
        have "\<exists>bs'. map_of (acc_modified a1) k = Some bs' \<and> x \<in> set bs'" by auto
        with Mkept [OF k' True] show ?thesis by simp
      qed
    qed
  qed
  have c5: "\<And>k. k \<in> gone \<union> - K' \<Longrightarrow> k \<in> K0 \<Longrightarrow> k \<in> K' \<Longrightarrow>
        \<exists>bs. map_of (acc_modified a3) k = Some bs \<and> set bs = set attrs"
  proof -
    fix k assume g: "k \<in> gone \<union> - K'" and k0: "k \<in> K0" and k': "k \<in> K'"
    show "\<exists>bs. map_of (acc_modified a3) k = Some bs \<and> set bs = set attrs"
    proof (cases "k \<in> K")
      case False
      with Mround [OF k' _ k0] show ?thesis by simp
    next
      case True
      from g k' have "k \<in> gone" by simp
      from Mgone [OF this k0 True] obtain bs where bs: "?M k = Some bs" "set bs = set attrs"
        by blast
      have "\<exists>bs'. map_of (acc_modified a1) k = Some bs' \<and> set bs' = set attrs"
      proof (cases "map_of (modified u) k")
        case None
        with bs M1same [of k] show ?thesis by simp
      next
        case (Some as)
        from mod_entry(3) [OF Some] have "set as \<subseteq> set attrs" by auto
        with bs M1set [OF Some] show ?thesis by auto
      qed
      with Mkept [OF k' True] show ?thesis by simp
    qed
  qed
  have "replay_inv attrs ix0 ix' (gone \<union> - fst ` set ix') a3"
    unfolding replay_inv_def
    using c1 [unfolded K0_def K'_def] c2 [unfolded K0_def K'_def] c3 [unfolded K'_def] c4
      c5 [unfolded K0_def K'_def]
    by (intro conjI allI impI) (assumption | blast)+
  moreover have "keywise attrs ix0 ix ix' u a a3"
    unfolding keywise_def
  proof (intro conjI allI impI)
    fix k assume "k \<in> fst ` set ix'" "k \<notin> fst ` set ix"
    then have k: "k \<in> K'" "k \<notin> K" by (simp_all add: K'_def K_def)
    show "map_of (acc_modified a3) k =
            (if k \<in> fst ` set ix0 then Some (remdups attrs) else None)"
    proof (cases "k \<in> K0")
      case True
      with Mround [OF k True] show ?thesis by (simp add: K0_def)
    next
      case False
      with Mnew [OF k False] show ?thesis by (simp add: K0_def)
    qed
  next
    fix k assume "k \<notin> fst ` set ix'"
    then have "k \<notin> K'" by (simp add: K'_def)
    then show "map_of (acc_modified a3) k = None" by (rule Mgonek)
  next
    fix k assume "k \<in> fst ` set ix'" "k \<in> fst ` set ix" and n: "map_of (modified u) k = None"
    then have k: "k \<in> K'" "k \<in> K" by (simp_all add: K'_def K_def)
    from Mkept [OF k] M1same [OF n]
    show "map_of (acc_modified a3) k = map_of (acc_modified a) k" by simp
  next
    fix k as
    assume "k \<in> fst ` set ix'" "k \<in> fst ` set ix" and m: "map_of (modified u) k = Some as"
    then have k: "k \<in> K'" "k \<in> K" by (simp_all add: K'_def K_def)
    from Mkept [OF k] M1set [OF m]
    show "\<exists>bs. map_of (acc_modified a3) k = Some bs \<and>
           set bs = (case map_of (acc_modified a) k of None \<Rightarrow> {} | Some s \<Rightarrow> set s) \<union> set as"
      by simp
  qed
  ultimately show ?thesis using run by blast
qed

lemma replay_inv_step:
  assumes "replay_inv attrs ix0 ix gone a"
    and "compute_update attrs ix ix' = Inr u"
    and "since < ts"
  shows "\<exists>a'. apply_update attrs since (ts, u) a = Inr a' \<and>
           replay_inv attrs ix0 ix' (gone \<union> - fst ` set ix') a'"
  using replay_step_keywise [OF assms] by blast



lemma for_each_append:
  "for_each f (xs @ ys) s = bind_err (for_each f xs s) (for_each f ys)"
proof (induction xs arbitrary: s)
  case Nil
  show ?case by simp
next
  case (Cons x xs)
  then show ?case by (cases "f x s") simp_all
qed

lemma replay_inv_chain:
  assumes "replay_inv attrs ix0 ix gone a" and "history attrs ix steps = Inr h"
    and "\<forall>ti \<in> set steps. since < fst ti"
  shows "\<exists>a'. for_each (apply_update attrs since) h a = Inr a' \<and>
           replay_inv attrs ix0 (last_index ix steps)
             (gone \<union> (\<Union>ti \<in> set steps. - fst ` set (snd ti))) a'"
  using assms
proof (induction steps arbitrary: ix gone a h)
  case Nil
  then show ?case by simp
next
  case (Cons ti steps)
  obtain ts ix' where ti: "ti = (ts, ix')" by (cases ti)
  from Cons.prems(2) ti obtain u h' where
    u: "compute_update attrs ix ix' = Inr u" and
    h': "history attrs ix' steps = Inr h'" and h: "h = (ts, u) # h'"
    by (auto simp: bind_err_Inr)
  from Cons.prems(3) ti have ts: "since < ts" and rest: "\<forall>ti \<in> set steps. since < fst ti"
    by auto
  from replay_inv_step [OF Cons.prems(1) u ts] obtain a1 where
    a1: "apply_update attrs since (ts, u) a = Inr a1" and
    inv1: "replay_inv attrs ix0 ix' (gone \<union> - fst ` set ix') a1"
    by blast
  from Cons.IH [OF inv1 h' rest] obtain a' where
    a': "for_each (apply_update attrs since) h' a1 = Inr a'" and
    inv': "replay_inv attrs ix0 (last_index ix' steps)
             (gone \<union> - fst ` set ix' \<union> (\<Union>ti \<in> set steps. - fst ` set (snd ti))) a'"
    by blast
  have "gone \<union> - fst ` set ix' \<union> (\<Union>ti \<in> set steps. - fst ` set (snd ti))
        = gone \<union> (\<Union>ti \<in> set (ti # steps). - fst ` set (snd ti))"
    using ti by auto
  with inv' have "replay_inv attrs ix0 (last_index ix (ti # steps))
             (gone \<union> (\<Union>ti \<in> set (ti # steps). - fst ` set (snd ti))) a'"
    using ti by simp
  moreover have "for_each (apply_update attrs since) h a = Inr a'"
    using a1 a' h by simp
  ultimately show ?case by blast
qed

text \<open>The replay of a retained history whose entries after \<open>since\<close> are such records.\<close>

lemma replay_of_history:
  assumes h: "history attrs ix0 steps = Inr h"
    and pre: "\<forall>tu \<in> set pre. fst tu \<le> since"
    and post: "\<forall>ti \<in> set steps. since < fst ti"
  shows "\<exists>a. replay attrs (pre @ h) since = Inr a \<and>
           replay_inv attrs ix0 (last_index ix0 steps)
             (\<Union>ti \<in> set steps. - fst ` set (snd ti)) a"
proof -
  have skip: "for_each (apply_update attrs since) pre empty_acc = Inr empty_acc"
    using pre by (rule replay_skips)
  from replay_inv_chain [OF replay_inv_start h post] obtain a where
    a: "for_each (apply_update attrs since) h empty_acc = Inr a" and
    inv: "replay_inv attrs ix0 (last_index ix0 steps)
             ({} \<union> (\<Union>ti \<in> set steps. - fst ` set (snd ti))) a"
    by blast
  have "replay attrs (pre @ h) since = Inr a"
    by (simp add: replay_def for_each_append skip a)
  with inv show ?thesis by auto
qed

lemma replay_upper_start: "replay_upper attrs ix0 ix0 {} {} empty_acc"
  by (simp add: replay_upper_def empty_acc_def)

lemma replay_upperD:
  assumes "replay_upper attrs ix0 ix gone ch a"
  shows "\<And>k. k \<in> fst ` set ix0 \<Longrightarrow> k \<notin> fst ` set ix \<Longrightarrow> k \<in> gone"
    and "\<And>k bs. map_of (acc_modified a) k = Some bs \<Longrightarrow>
           (k \<in> gone \<and> k \<in> fst ` set ix0 \<and> set bs = set attrs) \<or>
           (bs \<noteq> [] \<and> (\<forall>x \<in> set bs. (k, x) \<in> ch))"
proof -
  from assms have 1: "\<forall>k. k \<in> fst ` set ix0 \<longrightarrow> k \<notin> fst ` set ix \<longrightarrow> k \<in> gone"
    and 2: "\<forall>k bs. map_of (acc_modified a) k = Some bs \<longrightarrow>
        (k \<in> gone \<and> k \<in> fst ` set ix0 \<and> set bs = set attrs) \<or>
        (bs \<noteq> [] \<and> (\<forall>x \<in> set bs. (k, x) \<in> ch))"
    unfolding replay_upper_def by simp_all
  show "\<And>k. k \<in> fst ` set ix0 \<Longrightarrow> k \<notin> fst ` set ix \<Longrightarrow> k \<in> gone"
    using 1 by (elim allE impE) assumption+
  show "\<And>k bs. map_of (acc_modified a) k = Some bs \<Longrightarrow>
           (k \<in> gone \<and> k \<in> fst ` set ix0 \<and> set bs = set attrs) \<or>
           (bs \<noteq> [] \<and> (\<forall>x \<in> set bs. (k, x) \<in> ch))"
    using 2 by (elim allE impE) assumption+
qed

lemma keywiseD:
  assumes "keywise attrs ix0 ix ix' u a a'"
  shows "\<And>k. k \<in> fst ` set ix' \<Longrightarrow> k \<notin> fst ` set ix \<Longrightarrow>
           map_of (acc_modified a') k =
             (if k \<in> fst ` set ix0 then Some (remdups attrs) else None)"
    and "\<And>k. k \<notin> fst ` set ix' \<Longrightarrow> map_of (acc_modified a') k = None"
    and "\<And>k. k \<in> fst ` set ix' \<Longrightarrow> k \<in> fst ` set ix \<Longrightarrow> map_of (modified u) k = None \<Longrightarrow>
           map_of (acc_modified a') k = map_of (acc_modified a) k"
    and "\<And>k as. k \<in> fst ` set ix' \<Longrightarrow> k \<in> fst ` set ix \<Longrightarrow>
           map_of (modified u) k = Some as \<Longrightarrow>
           \<exists>bs. map_of (acc_modified a') k = Some bs \<and>
             set bs = (case map_of (acc_modified a) k of None \<Rightarrow> {} | Some s \<Rightarrow> set s) \<union> set as"
proof -
  from assms have
    1: "\<forall>k. k \<in> fst ` set ix' \<longrightarrow> k \<notin> fst ` set ix \<longrightarrow>
        map_of (acc_modified a') k =
          (if k \<in> fst ` set ix0 then Some (remdups attrs) else None)" and
    2: "\<forall>k. k \<notin> fst ` set ix' \<longrightarrow> map_of (acc_modified a') k = None" and
    3: "\<forall>k. k \<in> fst ` set ix' \<longrightarrow> k \<in> fst ` set ix \<longrightarrow> map_of (modified u) k = None \<longrightarrow>
        map_of (acc_modified a') k = map_of (acc_modified a) k" and
    4: "\<forall>k as. k \<in> fst ` set ix' \<longrightarrow> k \<in> fst ` set ix \<longrightarrow> map_of (modified u) k = Some as \<longrightarrow>
        (\<exists>bs. map_of (acc_modified a') k = Some bs \<and>
           set bs = (case map_of (acc_modified a) k of None \<Rightarrow> {} | Some s \<Rightarrow> set s) \<union> set as)"
    unfolding keywise_def by simp_all
  show "\<And>k. k \<in> fst ` set ix' \<Longrightarrow> k \<notin> fst ` set ix \<Longrightarrow>
           map_of (acc_modified a') k =
             (if k \<in> fst ` set ix0 then Some (remdups attrs) else None)"
    using 1 by (elim allE impE) assumption+
  show "\<And>k. k \<notin> fst ` set ix' \<Longrightarrow> map_of (acc_modified a') k = None"
    using 2 by (elim allE impE) assumption+
  show "\<And>k. k \<in> fst ` set ix' \<Longrightarrow> k \<in> fst ` set ix \<Longrightarrow> map_of (modified u) k = None \<Longrightarrow>
           map_of (acc_modified a') k = map_of (acc_modified a) k"
    using 3 by (elim allE impE) assumption+
  show "\<And>k as. k \<in> fst ` set ix' \<Longrightarrow> k \<in> fst ` set ix \<Longrightarrow>
           map_of (modified u) k = Some as \<Longrightarrow>
           \<exists>bs. map_of (acc_modified a') k = Some bs \<and>
             set bs = (case map_of (acc_modified a) k of None \<Rightarrow> {} | Some s \<Rightarrow> set s) \<union> set as"
    using 4 by (elim allE impE) assumption+
qed

lemma replay_upper_step:
  assumes up: "replay_upper attrs ix0 ix gone ch a"
    and kw: "keywise attrs ix0 ix ix' u a a'"
    and u: "compute_update attrs ix ix' = Inr u"
  shows "replay_upper attrs ix0 ix' (gone \<union> - fst ` set ix')
           (ch \<union> {(k, x). changed_by attrs ix ix' k x}) a'"
proof -
  note g = replay_upperD(1) [OF up] and b = replay_upperD(2) [OF up]
  note k1 = keywiseD(1) [OF kw] and k2 = keywiseD(2) [OF kw]
    and k3 = keywiseD(3) [OF kw] and k4 = keywiseD(4) [OF kw]
  have c1: "\<forall>k. k \<in> fst ` set ix0 \<longrightarrow> k \<notin> fst ` set ix' \<longrightarrow> k \<in> gone \<union> - fst ` set ix'"
    by simp
  have c2: "\<forall>k bs. map_of (acc_modified a') k = Some bs \<longrightarrow>
        (k \<in> gone \<union> - fst ` set ix' \<and> k \<in> fst ` set ix0 \<and> set bs = set attrs) \<or>
        (bs \<noteq> [] \<and> (\<forall>x \<in> set bs. (k, x) \<in> ch \<union> {(k, x). changed_by attrs ix ix' k x}))"
  proof (intro allI impI)
    fix k bs assume s: "map_of (acc_modified a') k = Some bs"
    have k': "k \<in> fst ` set ix'" using k2 [of k] s by (cases "k \<in> fst ` set ix'") auto
    show "(k \<in> gone \<union> - fst ` set ix' \<and> k \<in> fst ` set ix0 \<and> set bs = set attrs) \<or>
        (bs \<noteq> [] \<and> (\<forall>x \<in> set bs. (k, x) \<in> ch \<union> {(k, x). changed_by attrs ix ix' k x}))"
    proof (cases "k \<in> fst ` set ix")
      case False
      from k1 [OF k' False] s have k0: "k \<in> fst ` set ix0" and bs: "bs = remdups attrs"
        by (auto split: if_splits)
      from g [OF k0 False] k0 bs show ?thesis by simp
    next
      case True
      show ?thesis
      proof (cases "map_of (modified u) k")
        case None
        from k3 [OF k' True None] s have "map_of (acc_modified a) k = Some bs" by simp
        from b [OF this] show ?thesis by auto
      next
        case (Some as)
        from modified_entry(3) [OF u Some] obtain co cn where
          co: "map_of ix k = Some co" and cn: "map_of ix' k = Some cn" and
          as: "set as = {x \<in> set attrs. nv co x \<noteq> nv cn x}"
          by blast
        have asch: "\<forall>x \<in> set as. changed_by attrs ix ix' k x"
          using as co cn by (simp add: changed_by_def)
        have asne: "as \<noteq> []"
          using compute_update_modified [OF u True k'] Some by (auto split: if_splits)
        from k4 [OF k' True Some] s
        have bs: "set bs = (case map_of (acc_modified a) k of None \<Rightarrow> {} | Some s \<Rightarrow> set s) \<union> set as"
          by auto
        show ?thesis
        proof (cases "map_of (acc_modified a) k")
          case None
          with bs asch asne have "bs \<noteq> []" "\<forall>x \<in> set bs. changed_by attrs ix ix' k x"
            by auto
          then show ?thesis by simp
        next
          case (Some old)
          from b [OF Some] show ?thesis
          proof
            assume f: "k \<in> gone \<and> k \<in> fst ` set ix0 \<and> set old = set attrs"
            from as have "set as \<subseteq> set attrs" by auto
            with f bs Some have "set bs = set attrs" by auto
            with f show ?thesis by simp
          next
            assume "old \<noteq> [] \<and> (\<forall>x \<in> set old. (k, x) \<in> ch)"
            with bs Some asch asne
            have "bs \<noteq> []"
              "\<forall>x \<in> set bs. (k, x) \<in> ch \<union> {(k, x). changed_by attrs ix ix' k x}"
              by auto
            then show ?thesis by simp
          qed
        qed
      qed
    qed
  qed
  from c1 c2 show ?thesis unfolding replay_upper_def by (intro conjI)
qed

lemma changed_in_Cons:
  "{(k, x). changed_by attrs ix ix' k x} \<union> {(k, x). changed_in attrs ix' steps k x} =
   {(k, x). changed_in attrs ix ((ts, ix') # steps) k x}"
  by auto

lemma replay_both_chain:
  assumes "replay_inv attrs ix0 ix gone a" and "replay_upper attrs ix0 ix gone ch a"
    and "history attrs ix steps = Inr h"
    and "\<forall>ti \<in> set steps. since < fst ti"
  shows "\<exists>a'. for_each (apply_update attrs since) h a = Inr a' \<and>
           replay_inv attrs ix0 (last_index ix steps)
             (gone \<union> (\<Union>ti \<in> set steps. - fst ` set (snd ti))) a' \<and>
           replay_upper attrs ix0 (last_index ix steps)
             (gone \<union> (\<Union>ti \<in> set steps. - fst ` set (snd ti)))
             (ch \<union> {(k, x). changed_in attrs ix steps k x}) a'"
  using assms
proof (induction steps arbitrary: ix gone ch a h)
  case Nil
  then show ?case by simp
next
  case (Cons ti steps)
  obtain ts ix' where ti: "ti = (ts, ix')" by (cases ti)
  from Cons.prems(3) ti obtain u h' where
    u: "compute_update attrs ix ix' = Inr u" and
    h': "history attrs ix' steps = Inr h'" and h: "h = (ts, u) # h'"
    by (auto simp: bind_err_Inr)
  from Cons.prems(4) ti have ts: "since < ts" and rest: "\<forall>ti \<in> set steps. since < fst ti"
    by auto
  from replay_step_keywise [OF Cons.prems(1) u ts] obtain a1 where
    a1: "apply_update attrs since (ts, u) a = Inr a1" and
    inv1: "replay_inv attrs ix0 ix' (gone \<union> - fst ` set ix') a1" and
    kw: "keywise attrs ix0 ix ix' u a a1"
    by blast
  note up1 = replay_upper_step [OF Cons.prems(2) kw u]
  from Cons.IH [OF inv1 up1 h' rest] obtain a' where
    a': "for_each (apply_update attrs since) h' a1 = Inr a'" and
    inv': "replay_inv attrs ix0 (last_index ix' steps)
             (gone \<union> - fst ` set ix' \<union> (\<Union>ti \<in> set steps. - fst ` set (snd ti))) a'" and
    up': "replay_upper attrs ix0 (last_index ix' steps)
             (gone \<union> - fst ` set ix' \<union> (\<Union>ti \<in> set steps. - fst ` set (snd ti)))
             (ch \<union> {(k, x). changed_by attrs ix ix' k x} \<union>
                {(k, x). changed_in attrs ix' steps k x}) a'"
    by blast
  have g: "gone \<union> - fst ` set ix' \<union> (\<Union>ti \<in> set steps. - fst ` set (snd ti))
        = gone \<union> (\<Union>ti \<in> set (ti # steps). - fst ` set (snd ti))"
    using ti by auto
  have c: "ch \<union> {(k, x). changed_by attrs ix ix' k x} \<union>
             {(k, x). changed_in attrs ix' steps k x}
        = ch \<union> {(k, x). changed_in attrs ix (ti # steps) k x}"
    unfolding ti changed_in_Cons [symmetric] by (simp add: Un_assoc)
  have l: "last_index ix (ti # steps) = last_index ix' steps" using ti by simp
  have "for_each (apply_update attrs since) h a = Inr a'"
    using a1 a' h by simp
  moreover have "replay_inv attrs ix0 (last_index ix (ti # steps))
             (gone \<union> (\<Union>ti \<in> set (ti # steps). - fst ` set (snd ti))) a'"
    using inv' unfolding g l .
  moreover have "replay_upper attrs ix0 (last_index ix (ti # steps))
             (gone \<union> (\<Union>ti \<in> set (ti # steps). - fst ` set (snd ti)))
             (ch \<union> {(k, x). changed_in attrs ix (ti # steps) k x}) a'"
    using up' unfolding g c l .
  ultimately show ?case by blast
qed

lemma replay_of_history_upper:
  assumes h: "history attrs ix0 steps = Inr h"
    and pre: "\<forall>tu \<in> set pre. fst tu \<le> since"
    and post: "\<forall>ti \<in> set steps. since < fst ti"
  shows "\<exists>a. replay attrs (pre @ h) since = Inr a \<and>
           replay_inv attrs ix0 (last_index ix0 steps)
             (\<Union>ti \<in> set steps. - fst ` set (snd ti)) a \<and>
           replay_upper attrs ix0 (last_index ix0 steps)
             (\<Union>ti \<in> set steps. - fst ` set (snd ti))
             {(k, x). changed_in attrs ix0 steps k x} a"
proof -
  have skip: "for_each (apply_update attrs since) pre empty_acc = Inr empty_acc"
    using pre by (rule replay_skips)
  from replay_both_chain [OF replay_inv_start replay_upper_start h post] obtain a where
    a: "for_each (apply_update attrs since) h empty_acc = Inr a" and
    inv: "replay_inv attrs ix0 (last_index ix0 steps)
             ({} \<union> (\<Union>ti \<in> set steps. - fst ` set (snd ti))) a" and
    up: "replay_upper attrs ix0 (last_index ix0 steps)
             ({} \<union> (\<Union>ti \<in> set steps. - fst ` set (snd ti)))
             ({} \<union> {(k, x). changed_in attrs ix0 steps k x}) a"
    by blast
  have "replay attrs (pre @ h) since = Inr a"
    by (simp add: replay_def for_each_append skip a)
  with inv up show ?thesis by auto
qed

section \<open>The replay against the direct diff\<close>

text \<open>
  C1, as stated, fails: a course renamed by one refresh and renamed back by the next is in
  \<open>modified\<close> of the replay since the time before both, and in no collection of the update
  record between the index at that time and the current index, which are equal. The store
  is the one the three refreshes leave.
\<close>

theorem replay_differs_from_direct_counterexample:
  "history tracked ix1 [(200, ix2), (300, ix1)] = Inr [(200, u_mod), (300, u_mod)] \<and>
   replay tracked [(200, u_mod), (300, u_mod)] 100 =
     Inr \<lparr> acc_added = [], acc_removed = [],
           acc_modified = [(intro_key, [''courseName''])] \<rparr> \<and>
   compute_update tracked ix1 ix1 = Inr \<lparr> added = [], removed = [], modified = [] \<rparr> \<and>
   (case run tracked rename_and_back module_loaded of
      Inl e \<Rightarrow> False
    | Inr w \<Rightarrow>
        updates (deref w) = [(200, u_mod), (300, u_mod)] \<and>
        map_option (map fst) (index (deref w)) = Some [intro_key] \<and>
        (case compute_diff tracked (deref w) 100 of
           Inl e \<Rightarrow> False
         | Inr d \<Rightarrow> map course_to_index_key (modified_courses d) = [Inr intro_key]))"
  by code_simp

text \<open>
  C1, amended: let the retained history of a store end with the update records of the
  refreshes after \<open>since\<close>, which lead from the index \<open>ix0\<close> that was current at \<open>since\<close> to
  the current index, every earlier retained entry having a timestamp of at most \<open>since\<close>.
  Then the replay succeeds, and its \<open>added\<close> and \<open>removed\<close> keys are exactly those of the
  direct update record between \<open>ix0\<close> and the current index. Its \<open>modified\<close> lies between
  two bounds. From below: every key that the direct record has in \<open>modified\<close> is in
  \<open>modified\<close> of the replay, with at least the same attributes. From above: every key in
  \<open>modified\<close> of the replay is in the current index, and either it is a key of \<open>ix0\<close> that
  was missing from the index of one of the refreshes, reported with exactly the tracked
  attributes, or it is reported with a non-empty set of attributes each of which one of the
  refreshes changed (the indices before and after that refresh both hold the key, with
  courses that differ on the attribute).
\<close>

theorem replay_covers_direct_diff:
  assumes "history attrs ix0 steps = Inr h"
    and "updates cd = pre @ h"
    and "\<forall>tu \<in> set pre. fst tu \<le> since"
    and "\<forall>ti \<in> set steps. since < fst ti"
    and "compute_update attrs ix0 (last_index ix0 steps) = Inr d"
  shows "\<exists>a. replay attrs (updates cd) since = Inr a \<and>
           set (acc_added a) = set (added d) \<and>
           set (acc_removed a) = set (removed d) \<and>
           (\<forall>(k, as) \<in> set (modified d).
              \<exists>bs. map_of (acc_modified a) k = Some bs \<and> set as \<subseteq> set bs) \<and>
           (\<forall>k bs. map_of (acc_modified a) k = Some bs \<longrightarrow>
              k \<in> fst ` set (last_index ix0 steps) \<and>
              ((k \<in> fst ` set ix0 \<and> (\<exists>ti \<in> set steps. k \<notin> fst ` set (snd ti)) \<and>
                set bs = set attrs) \<or>
               (bs \<noteq> [] \<and> (\<forall>x \<in> set bs. changed_in attrs ix0 steps k x))))"
proof -
  from replay_of_history_upper [OF assms(1,3,4)] assms(2) obtain a where
    a: "replay attrs (updates cd) since = Inr a" and
    inv: "replay_inv attrs ix0 (last_index ix0 steps)
             (\<Union>ti \<in> set steps. - fst ` set (snd ti)) a" and
    up: "replay_upper attrs ix0 (last_index ix0 steps)
             (\<Union>ti \<in> set steps. - fst ` set (snd ti))
             {(k, x). changed_in attrs ix0 steps k x} a"
    by auto
  note ds = compute_update_sets [OF assms(5)]
  have "set (acc_added a) = set (added d)" using replay_invD(1) [OF inv] ds(1) by simp
  moreover have "set (acc_removed a) = set (removed d)"
    using replay_invD(2) [OF inv] ds(2) by simp
  moreover have "\<forall>(k, as) \<in> set (modified d).
              \<exists>bs. map_of (acc_modified a) k = Some bs \<and> set as \<subseteq> set bs"
  proof (clarify)
    fix k as assume "(k, as) \<in> set (modified d)"
    with ds(5) have m: "map_of (modified d) k = Some as" by simp
    from modified_entry(3) [OF assms(5) m] obtain c0 c where
      c0: "map_of ix0 k = Some c0" and c: "map_of (last_index ix0 steps) k = Some c" and
      as: "set as = {x \<in> set attrs. nv c0 x \<noteq> nv c x}"
      by blast
    have ne: "as \<noteq> []"
      using compute_update_modified [OF assms(5) modified_entry(1,2) [OF assms(5) m]] m c0 c as
      by (auto split: if_splits)
    then obtain x where x: "x \<in> set as" by (cases as) auto
    with as have "x \<in> set attrs" "nv c0 x \<noteq> nv c x" by auto
    from replay_invD(4) [OF inv c0 c this] obtain bs where
      bs: "map_of (acc_modified a) k = Some bs" by blast
    have "set as \<subseteq> set bs"
    proof
      fix y assume "y \<in> set as"
      with as have "y \<in> set attrs" "nv c0 y \<noteq> nv c y" by auto
      from replay_invD(4) [OF inv c0 c this] bs show "y \<in> set bs" by auto
    qed
    with bs show "\<exists>bs. map_of (acc_modified a) k = Some bs \<and> set as \<subseteq> set bs" by blast
  qed
  moreover have "\<forall>k bs. map_of (acc_modified a) k = Some bs \<longrightarrow>
              k \<in> fst ` set (last_index ix0 steps) \<and>
              ((k \<in> fst ` set ix0 \<and> (\<exists>ti \<in> set steps. k \<notin> fst ` set (snd ti)) \<and>
                set bs = set attrs) \<or>
               (bs \<noteq> [] \<and> (\<forall>x \<in> set bs. changed_in attrs ix0 steps k x)))"
  proof (intro allI impI)
    fix k bs assume s: "map_of (acc_modified a) k = Some bs"
    from replay_invD(3) [OF inv s] have kn: "k \<in> fst ` set (last_index ix0 steps)" by simp
    from replay_upperD(2) [OF up s]
    have "(k \<in> fst ` set ix0 \<and> (\<exists>ti \<in> set steps. k \<notin> fst ` set (snd ti)) \<and>
                set bs = set attrs) \<or>
               (bs \<noteq> [] \<and> (\<forall>x \<in> set bs. changed_in attrs ix0 steps k x))"
      by auto
    with kn show "k \<in> fst ` set (last_index ix0 steps) \<and>
              ((k \<in> fst ` set ix0 \<and> (\<exists>ti \<in> set steps. k \<notin> fst ` set (snd ti)) \<and>
                set bs = set attrs) \<or>
               (bs \<noteq> [] \<and> (\<forall>x \<in> set bs. changed_in attrs ix0 steps k x)))"
      by simp
  qed
  ultimately show ?thesis using a by blast
qed

theorem replay_covers_direct_diff_witness:
  "history tracked ix1 [(200, ix2)] = Inr (updates renamed_store) \<and>
   compute_update tracked ix1 (last_index ix1 [(200, ix2)]) = Inr u_mod \<and>
   changed_in tracked ix1 [(200, ix2)] intro_key ''courseName'' \<and>
   \<not> changed_in tracked ix1 [(200, ix2)] intro_key ''openSeats'' \<and>
   (\<exists>a. replay tracked (updates renamed_store) 100 = Inr a \<and>
      set (acc_added a) = set (added u_mod) \<and>
      set (acc_removed a) = set (removed u_mod) \<and>
      (\<forall>(k, as) \<in> set (modified u_mod).
         \<exists>bs. map_of (acc_modified a) k = Some bs \<and> set as \<subseteq> set bs) \<and>
      (\<forall>k bs. map_of (acc_modified a) k = Some bs \<longrightarrow>
         k \<in> fst ` set (last_index ix1 [(200, ix2)]) \<and>
         ((k \<in> fst ` set ix1 \<and> (\<exists>ti \<in> set [(200 :: int, ix2)]. k \<notin> fst ` set (snd ti)) \<and>
           set bs = set tracked) \<or>
          (bs \<noteq> [] \<and> (\<forall>x \<in> set bs. changed_in tracked ix1 [(200, ix2)] k x)))))"
proof -
  have h: "history tracked ix1 [(200, ix2)] = Inr (updates renamed_store)"
    by code_simp
  have u: "updates renamed_store = [] @ updates renamed_store"
    by simp
  have pre: "\<forall>tu \<in> set ([] :: (int \<times> update) list). fst tu \<le> 100"
    by simp
  have post: "\<forall>ti \<in> set [(200 :: int, ix2)]. 100 < fst ti"
    by simp
  have d: "compute_update tracked ix1 (last_index ix1 [(200, ix2)]) = Inr u_mod"
    by code_simp
  have c: "changed_in tracked ix1 [(200, ix2)] intro_key ''courseName''"
    "\<not> changed_in tracked ix1 [(200, ix2)] intro_key ''openSeats''"
    by code_simp+
  from replay_covers_direct_diff [OF h u pre post d] h d c show ?thesis
    by blast
qed

section \<open>A course removed and added again\<close>

text \<open>
  C2, as stated, fails: a course that was not in the catalog at \<open>since\<close>, and is then added,
  removed and added again, is removed by one retained refresh and added again by a later
  one, and the replay reports it in \<open>added\<close>, not in \<open>modified\<close>.
\<close>

theorem added_removed_added_counterexample:
  "history tracked [] [(200, ix1), (300, []), (400, ix1)] =
     Inr [(200, u_add), (300, u_del), (400, u_add)] \<and>
   replay tracked [(200, u_add), (300, u_del), (400, u_add)] 100 =
     Inr \<lparr> acc_added = [intro_key], acc_removed = [], acc_modified = [] \<rparr>"
  by code_simp

text \<open>
  C2, amended: let the retained history of a store end with the update records of the
  refreshes after \<open>since\<close>, as in C1. A key that is in the index that was current at
  \<open>since\<close>, is missing from the index of one of these refreshes, and is in the current index,
  is in \<open>modified\<close> of the replay with exactly the tracked attributes, and is neither in
  \<open>added\<close> nor in \<open>removed\<close>.
\<close>

theorem round_trip_fully_modified:
  assumes "history attrs ix0 steps = Inr h"
    and "updates cd = pre @ h"
    and "\<forall>tu \<in> set pre. fst tu \<le> since"
    and "\<forall>ti \<in> set steps. since < fst ti"
    and "k \<in> fst ` set ix0"
    and "\<exists>ti \<in> set steps. k \<notin> fst ` set (snd ti)"
    and "k \<in> fst ` set (last_index ix0 steps)"
  shows "\<exists>a. replay attrs (updates cd) since = Inr a \<and>
           (\<exists>bs. map_of (acc_modified a) k = Some bs \<and> set bs = set attrs) \<and>
           k \<notin> set (acc_added a) \<and> k \<notin> set (acc_removed a)"
proof -
  from replay_of_history [OF assms(1,3,4)] assms(2) obtain a where
    a: "replay attrs (updates cd) since = Inr a" and
    inv: "replay_inv attrs ix0 (last_index ix0 steps)
             (\<Union>ti \<in> set steps. - fst ` set (snd ti)) a"
    by auto
  from assms(6) have g: "k \<in> (\<Union>ti \<in> set steps. - fst ` set (snd ti))" by auto
  from replay_invD(5) [OF inv g assms(5,7)]
  have "\<exists>bs. map_of (acc_modified a) k = Some bs \<and> set bs = set attrs" .
  moreover have "k \<notin> set (acc_added a)" using replay_invD(1) [OF inv] assms(5) by simp
  moreover have "k \<notin> set (acc_removed a)" using replay_invD(2) [OF inv] assms(7) by simp
  ultimately show ?thesis using a by blast
qed

theorem round_trip_fully_modified_witness:
  "history tracked ix1 [(200, []), (300, ix2)] = Inr (updates round_trip_store) \<and>
   intro_key \<in> fst ` set ix1 \<and> intro_key \<in> fst ` set (last_index ix1 [(200, []), (300, ix2)]) \<and>
   (\<exists>a. replay tracked (updates round_trip_store) 100 = Inr a \<and>
      (\<exists>bs. map_of (acc_modified a) intro_key = Some bs \<and> set bs = set tracked) \<and>
      intro_key \<notin> set (acc_added a) \<and> intro_key \<notin> set (acc_removed a))"
proof -
  have h: "history tracked ix1 [(200, []), (300, ix2)] = Inr (updates round_trip_store)"
    by code_simp
  have u: "updates round_trip_store = [] @ updates round_trip_store"
    by simp
  have pre: "\<forall>tu \<in> set ([] :: (int \<times> update) list). fst tu \<le> 100"
    by simp
  have post: "\<forall>ti \<in> set [(200 :: int, [] :: index), (300, ix2)]. 100 < fst ti"
    by simp
  have k0: "intro_key \<in> fst ` set ix1"
    by (simp add: ix1_def)
  have gone: "\<exists>ti \<in> set [(200 :: int, [] :: index), (300, ix2)]. intro_key \<notin> fst ` set (snd ti)"
    by simp
  have kn: "intro_key \<in> fst ` set (last_index ix1 [(200, []), (300, ix2)])"
    by (simp add: ix2_def)
  from round_trip_fully_modified [OF h u pre post k0 gone kn] h k0 kn show ?thesis
    by blast
qed

section \<open>The bounded history\<close>

lemma drop_window:
  "drop (length (drop (length xs - m) xs @ ys) - m) (drop (length xs - m) xs @ ys) =
   drop (length (xs @ ys) - m) (xs @ ys)"
proof (cases "length xs \<le> m")
  case True
  then show ?thesis by simp
next
  case False
  then have a: "length ys + (length xs - m) = length xs + length ys - m" by arith
  have "length (drop (length xs - m) xs @ ys) - m = length ys" using False by simp
  then show ?thesis using False by (simp add: a)
qed

lemma update_course_data_Some:
  assumes "update_course_data attrs ts courses ix m cd = Inr cd'" and "index cd = Some last_ix"
  shows "\<exists>u. compute_update attrs last_ix ix = Inr u \<and>
           updates cd' = drop (length (updates cd @ [(ts, u)]) - MAX_UPDATES_SAVED)
                           (updates cd @ [(ts, u)]) \<and>
           index cd' = Some ix \<and> current cd' = Some courses \<and> timestamp cd' = Some ts \<and>
           initial_timestamp cd' = initial_timestamp cd"
  using assms by (auto simp: update_course_data_def bind_err_Inr Let_def)

lemma update_course_data_None:
  assumes "update_course_data attrs ts courses ix m cd = Inr cd'" and "index cd = None"
  shows "updates cd' = updates cd" and "index cd' = Some ix" and "current cd' = Some courses"
    and "timestamp cd' = Some ts" and "initial_timestamp cd' = Some ts"
  using assms by (auto simp: update_course_data_def bind_err_Inr)

lemma seq_history:
  assumes "update_course_data_seq attrs rs cd0 = Inr cd" and "index cd0 = Some ix"
    and "length (updates cd0) \<le> MAX_UPDATES_SAVED"
  shows "\<exists>h. history attrs ix (map step_of rs) = Inr h \<and>
           updates cd = drop (length (updates cd0 @ h) - MAX_UPDATES_SAVED) (updates cd0 @ h) \<and>
           index cd = Some (last_index ix (map step_of rs))"
  using assms
proof (induction rs arbitrary: cd0 ix)
  case Nil
  then show ?case by simp
next
  case (Cons r rs)
  obtain ts courses ix' m where r: "r = (ts, courses, ix', m)" by (cases r)
  from Cons.prems(1) r obtain cd1 where
    cd1: "update_course_data attrs ts courses ix' m cd0 = Inr cd1" and
    rest: "update_course_data_seq attrs rs cd1 = Inr cd"
    by (auto simp: bind_err_Inr)
  from update_course_data_Some [OF cd1 Cons.prems(2)] obtain u where
    u: "compute_update attrs ix ix' = Inr u" and
    ups1: "updates cd1 = drop (length (updates cd0 @ [(ts, u)]) - MAX_UPDATES_SAVED)
                           (updates cd0 @ [(ts, u)])" and
    ix1: "index cd1 = Some ix'"
    by blast
  have len1: "length (updates cd1) \<le> MAX_UPDATES_SAVED"
    unfolding ups1 by simp
  from Cons.IH [OF rest ix1 len1] obtain h where
    h: "history attrs ix' (map step_of rs) = Inr h" and
    ups: "updates cd = drop (length (updates cd1 @ h) - MAX_UPDATES_SAVED) (updates cd1 @ h)" and
    ixn: "index cd = Some (last_index ix' (map step_of rs))"
    by blast
  have hh: "history attrs ix (map step_of (r # rs)) = Inr ((ts, u) # h)"
    using u h r by (simp add: step_of_def)
  have "updates cd = drop (length ((updates cd0 @ [(ts, u)]) @ h) - MAX_UPDATES_SAVED)
                       ((updates cd0 @ [(ts, u)]) @ h)"
    unfolding ups ups1 by (rule drop_window)
  then have "updates cd = drop (length (updates cd0 @ (ts, u) # h) - MAX_UPDATES_SAVED)
                       (updates cd0 @ (ts, u) # h)"
    by simp
  moreover have "index cd = Some (last_index ix (map step_of (r # rs)))"
    using ixn r by (simp add: step_of_def)
  ultimately show ?case using hh by blast
qed

lemma seq_take:
  "update_course_data_seq attrs rs cd0 = Inr cd \<Longrightarrow>
     \<exists>cd'. update_course_data_seq attrs (take n rs) cd0 = Inr cd'"
proof (induction rs arbitrary: cd0 n)
  case Nil
  then show ?case by simp
next
  case (Cons r rs)
  obtain ts courses ix' m where r: "r = (ts, courses, ix', m)" by (cases r)
  from Cons.prems r obtain cd1 where
    cd1: "update_course_data attrs ts courses ix' m cd0 = Inr cd1" and
    rest: "update_course_data_seq attrs rs cd1 = Inr cd"
    by (auto simp: bind_err_Inr)
  show ?case
  proof (cases n)
    case 0
    then show ?thesis by simp
  next
    case (Suc n')
    from Cons.IH [OF rest, of n'] cd1 r Suc show ?thesis by simp
  qed
qed

lemma seq_from_initial:
  assumes "update_course_data_seq attrs rs INITIAL_COURSE_DATA = Inr cd"
  shows "length (updates cd) \<le> MAX_UPDATES_SAVED"
    and "case rs of
           [] \<Rightarrow> updates cd = []
         | r # rest \<Rightarrow>
             \<exists>h. history attrs (snd (step_of r)) (map step_of rest) = Inr h \<and>
                 updates cd = drop (length h - MAX_UPDATES_SAVED) h"
proof -
  show b: "case rs of
           [] \<Rightarrow> updates cd = []
         | r # rest \<Rightarrow>
             \<exists>h. history attrs (snd (step_of r)) (map step_of rest) = Inr h \<and>
                 updates cd = drop (length h - MAX_UPDATES_SAVED) h"
  proof (cases rs)
    case Nil
    with assms show ?thesis by (auto simp: INITIAL_COURSE_DATA_def)
  next
    case (Cons r rest)
    obtain ts courses ix m where r: "r = (ts, courses, ix, m)" by (cases r)
    from assms Cons r obtain cd1 where
      cd1: "update_course_data attrs ts courses ix m INITIAL_COURSE_DATA = Inr cd1" and
      rest: "update_course_data_seq attrs rest cd1 = Inr cd"
      by (auto simp: bind_err_Inr)
    have none: "index INITIAL_COURSE_DATA = None" by (simp add: INITIAL_COURSE_DATA_def)
    note f = update_course_data_None [OF cd1 none]
    from f(1) have e: "updates cd1 = []" by (simp add: INITIAL_COURSE_DATA_def)
    from e have len: "length (updates cd1) \<le> MAX_UPDATES_SAVED" by simp
    from seq_history [OF rest f(2) len] e Cons r show ?thesis by (auto simp: step_of_def)
  qed
  show "length (updates cd) \<le> MAX_UPDATES_SAVED"
    using b by (cases rs) auto
qed

lemma history_length:
  "history attrs ix steps = Inr h \<Longrightarrow> map fst h = map fst steps"
proof (induction steps arbitrary: ix h)
  case Nil
  then show ?case by simp
next
  case (Cons ti steps)
  obtain ts ix' where ti: "ti = (ts, ix')" by (cases ti)
  from Cons.prems ti obtain u h' where
    h': "history attrs ix' steps = Inr h'" and h: "h = (ts, u) # h'"
    by (auto simp: bind_err_Inr)
  from Cons.IH [OF h'] h ti show ?case by simp
qed

text \<open>
  C5: after any sequence of successful refreshes of the initial store, and after every
  prefix of it, the history holds at most \<open>MAX_UPDATES_SAVED\<close> = 100 entries. The first
  refresh adds no entry; the entries are the last 100 of the update records of the later
  refreshes, in the order and with the timestamps of the refreshes, so that there are
  exactly 100 once more than 100 refreshes have added one.
\<close>

theorem history_bounded:
  assumes "update_course_data_seq attrs rs INITIAL_COURSE_DATA = Inr cd"
  shows "MAX_UPDATES_SAVED = 100 \<and>
         length (updates cd) \<le> MAX_UPDATES_SAVED \<and>
         (\<forall>n. \<exists>cd'. update_course_data_seq attrs (take n rs) INITIAL_COURSE_DATA = Inr cd' \<and>
                 length (updates cd') \<le> MAX_UPDATES_SAVED) \<and>
         (case rs of
            [] \<Rightarrow> updates cd = []
          | r # rest \<Rightarrow>
              \<exists>h. history attrs (snd (step_of r)) (map step_of rest) = Inr h \<and>
                  map fst h = map (fst \<circ> step_of) rest \<and>
                  updates cd = drop (length h - MAX_UPDATES_SAVED) h \<and>
                  (MAX_UPDATES_SAVED < length rest \<longrightarrow>
                     length (updates cd) = MAX_UPDATES_SAVED))"
proof (intro conjI allI)
  show "MAX_UPDATES_SAVED = 100" by (simp add: MAX_UPDATES_SAVED_def)
  show "length (updates cd) \<le> MAX_UPDATES_SAVED" by (rule seq_from_initial(1) [OF assms])
  show "\<exists>cd'. update_course_data_seq attrs (take n rs) INITIAL_COURSE_DATA = Inr cd' \<and>
                 length (updates cd') \<le> MAX_UPDATES_SAVED" for n
  proof -
    from seq_take [OF assms, of n] obtain cd' where
      cd': "update_course_data_seq attrs (take n rs) INITIAL_COURSE_DATA = Inr cd'" by blast
    from seq_from_initial(1) [OF cd'] cd' show ?thesis by blast
  qed
  show "case rs of
            [] \<Rightarrow> updates cd = []
          | r # rest \<Rightarrow>
              \<exists>h. history attrs (snd (step_of r)) (map step_of rest) = Inr h \<and>
                  map fst h = map (fst \<circ> step_of) rest \<and>
                  updates cd = drop (length h - MAX_UPDATES_SAVED) h \<and>
                  (MAX_UPDATES_SAVED < length rest \<longrightarrow>
                     length (updates cd) = MAX_UPDATES_SAVED)"
  proof (cases rs)
    case Nil
    with seq_from_initial(2) [OF assms] show ?thesis by simp
  next
    case (Cons r rest)
    with seq_from_initial(2) [OF assms] obtain h where
      h: "history attrs (snd (step_of r)) (map step_of rest) = Inr h" and
      u: "updates cd = drop (length h - MAX_UPDATES_SAVED) h"
      by auto
    from history_length [OF h] have m: "map fst h = map (fst \<circ> step_of) rest" by simp
    then have "length h = length rest" by (metis length_map)
    then have "MAX_UPDATES_SAVED < length rest \<longrightarrow> length (updates cd) = MAX_UPDATES_SAVED"
      using u by auto
    with h m u Cons show ?thesis by auto
  qed
qed

theorem history_bounded_witness:
  "\<exists>cd. update_course_data_seq tracked many_refreshes INITIAL_COURSE_DATA = Inr cd \<and>
        length many_refreshes = 103 \<and>
        length (updates cd) \<le> MAX_UPDATES_SAVED \<and>
        map fst (updates cd) = map int [3 ..< 103]"
proof -
  have "case update_course_data_seq tracked many_refreshes INITIAL_COURSE_DATA of
          Inl e \<Rightarrow> False
        | Inr cd \<Rightarrow> map fst (updates cd) = map int [3 ..< 103]"
    by code_simp
  then obtain cd where
    cd: "update_course_data_seq tracked many_refreshes INITIAL_COURSE_DATA = Inr cd" and
    ts: "map fst (updates cd) = map int [3 ..< 103]"
    by (cases "update_course_data_seq tracked many_refreshes INITIAL_COURSE_DATA") auto
  from history_bounded [OF cd] have "length (updates cd) \<le> MAX_UPDATES_SAVED" by blast
  moreover have "length many_refreshes = 103" by (simp add: many_refreshes_def)
  ultimately show ?thesis using cd ts by blast
qed

section \<open>The read routes\<close>

lemma do_GET_courses_since:
  "do_GET attrs (''/api/v2/courses-since/'' @ rest) cd =
     (case takeWhile ts_char rest of
        [] \<Rightarrow> (SendError NOT_FOUND, cd)
      | c # g \<Rightarrow>
          (case py_int (c # g) of
             None \<Rightarrow> (SendError BAD_REQUEST, cd)
           | Some since \<Rightarrow> (courses_since attrs cd since, cd)))"
  by (simp add: do_GET_def match_courses_since_def startswith_def Let_def split: list.split)

lemma do_GET_store: "snd (do_GET attrs path cd) = cd"
  by (simp add: do_GET_def split: option.split)

lemma respond_not_error: "respond r \<noteq> SendError n"
  by (cases r) (simp_all add: respond_def)

lemma current_truthy_iff:
  "current_truthy cd \<longleftrightarrow> \<not> (current cd = None \<or> current cd = Some [])"
  by (cases "current cd") (simp_all add: current_truthy_def)

lemma courses_since_unavailable:
  "courses_since attrs cd since = SendError SERVICE_UNAVAILABLE \<longleftrightarrow> \<not> current_truthy cd"
  by (simp add: courses_since_def respond_not_error)

text \<open>
  A timestamp of more than 4300 digits is refused by \<open>int\<close>, and the route answers
  400 Bad Request whatever the store holds.
\<close>

lemma py_int_long:
  assumes "list_all is_digit g" and "int_max_str_digits < length g"
  shows "py_int g = None"
proof (cases g)
  case Nil
  then show ?thesis by (simp add: py_int_def)
next
  case (Cons c cs)
  with assms(1) have "c \<noteq> CHR ''-''" by (auto simp: is_digit_def)
  with Cons assms(2) show ?thesis by (simp add: py_int_def)
qed

lemma long_timestamp_bad_request:
  assumes "list_all is_digit g" and "int_max_str_digits < length g"
  shows "fst (do_GET attrs (''/api/v2/courses-since/'' @ g) cd) = SendError BAD_REQUEST"
proof -
  from assms(1) have "list_all ts_char g"
    by (auto simp: list_all_iff is_digit_def ts_char_def)
  then have tw: "takeWhile ts_char g = g" by (simp add: list_all_iff)
  from assms(2) have ne: "g \<noteq> []" by auto
  have "do_GET attrs (''/api/v2/courses-since/'' @ g) cd =
      (case g of
         [] \<Rightarrow> (SendError NOT_FOUND, cd)
       | c # g' \<Rightarrow>
           (case py_int (c # g') of
              None \<Rightarrow> (SendError BAD_REQUEST, cd)
            | Some since \<Rightarrow> (courses_since attrs cd since, cd)))"
    using do_GET_courses_since [of attrs g cd] by (simp only: tw)
  with ne py_int_long [OF assms] show ?thesis by (cases g) simp_all
qed

subsection \<open>An unparsable timestamp\<close>

text \<open>
  C8, as stated, fails at its own example: the path with the timestamp \<open>abc\<close> does not match
  the pattern of the route, no later route matches it, and the answer is 404 Not Found, not
  400 Bad Request. The timestamp \<open>12abc\<close> is not an integer either; the pattern takes \<open>12\<close>
  from it and the request is answered as the one for 12.
\<close>

theorem timestamp_abc_counterexample:
  "py_int ''abc'' = None \<and>
   do_GET tracked ''/api/v2/courses-since/abc'' renamed_store =
     (SendError NOT_FOUND, renamed_store) \<and>
   NOT_FOUND \<noteq> BAD_REQUEST \<and>
   py_int ''12abc'' = None \<and>
   do_GET tracked ''/api/v2/courses-since/12abc'' renamed_store =
     (courses_since tracked renamed_store 12, renamed_store)"
proof -
  have a: "do_GET tracked ''/api/v2/courses-since/abc'' renamed_store =
             (SendError NOT_FOUND, renamed_store)"
    using do_GET_courses_since [of tracked "''abc''" renamed_store]
    by (simp add: ts_char_def)
  have b: "do_GET tracked ''/api/v2/courses-since/12abc'' renamed_store =
             (courses_since tracked renamed_store 12, renamed_store)"
    using do_GET_courses_since [of tracked "''12abc''" renamed_store]
    by (simp add: ts_char_def py_int_def int_max_str_digits_def is_digit_def nat_of_digits_def digit_value_def)
  have c: "py_int ''abc'' = None" "py_int ''12abc'' = None"
    by (simp_all add: py_int_def int_max_str_digits_def is_digit_def)
  show ?thesis
    using a b c by (simp add: NOT_FOUND_def BAD_REQUEST_def)
qed

text \<open>
  C8, amended: for a request \<open>/api/v2/courses-since/<rest>\<close>, let the run be the longest
  prefix of \<open>rest\<close> made of digits and minus signs. When the run is not empty and is not an
  integer that \<open>int\<close> accepts (as \<open>1-2\<close>, \<open>-\<close>, or a run of more than 4300 digits), the
  answer is 400 Bad Request; when the run is empty (as for
  \<open>abc\<close>), the answer is 404 Not Found. No request to \<open>do_GET\<close> changes the store.
\<close>

theorem malformed_timestamp_response:
  "(takeWhile ts_char rest \<noteq> [] \<and> py_int (takeWhile ts_char rest) = None \<longrightarrow>
      fst (do_GET attrs (''/api/v2/courses-since/'' @ rest) cd) = SendError BAD_REQUEST) \<and>
   (takeWhile ts_char rest = [] \<longrightarrow>
      fst (do_GET attrs (''/api/v2/courses-since/'' @ rest) cd) = SendError NOT_FOUND) \<and>
   snd (do_GET attrs path cd) = cd"
proof (intro conjI impI)
  assume "takeWhile ts_char rest \<noteq> [] \<and> py_int (takeWhile ts_char rest) = None"
  then show "fst (do_GET attrs (''/api/v2/courses-since/'' @ rest) cd) = SendError BAD_REQUEST"
    unfolding do_GET_courses_since by (cases "takeWhile ts_char rest") auto
next
  assume "takeWhile ts_char rest = []"
  then show "fst (do_GET attrs (''/api/v2/courses-since/'' @ rest) cd) = SendError NOT_FOUND"
    unfolding do_GET_courses_since by simp
next
  show "snd (do_GET attrs path cd) = cd" by (rule do_GET_store)
qed

theorem malformed_timestamp_response_witness:
  "takeWhile ts_char ''1-2/'' = ''1-2'' \<and> py_int ''1-2'' = None \<and>
   fst (do_GET tracked ''/api/v2/courses-since/1-2/'' renamed_store) = SendError BAD_REQUEST \<and>
   takeWhile ts_char ''abc'' = [] \<and>
   fst (do_GET tracked ''/api/v2/courses-since/abc'' renamed_store) = SendError NOT_FOUND"
proof -
  have t: "takeWhile ts_char ''1-2/'' = ''1-2''" "takeWhile ts_char ''abc'' = []"
    by (simp_all add: ts_char_def)
  have p: "py_int ''1-2'' = None"
    by (simp add: py_int_def int_max_str_digits_def is_digit_def)
  show ?thesis
    using t p
      malformed_timestamp_response [of "''1-2/''" tracked renamed_store]
      malformed_timestamp_response [of "''abc''" tracked renamed_store]
    by simp
qed

subsection \<open>Unavailable, incremental, or the full catalog\<close>

text \<open>
  C4, as stated, fails: after a successful refresh with an empty catalog the store is
  initialized (its index and its initial timestamp are set), and the three read routes
  answer 503 Service Unavailable.
\<close>

theorem empty_catalog_unavailable_counterexample:
  "update_course_data tracked 100 [] [] [] INITIAL_COURSE_DATA = Inr empty_catalog_store \<and>
   index empty_catalog_store = Some [] \<and>
   initial_timestamp empty_catalog_store = Some 100 \<and>
   fst (do_GET tracked ''/api/v2/all-courses'' empty_catalog_store) =
     SendError SERVICE_UNAVAILABLE \<and>
   fst (do_GET tracked ''/api/v2/courses-since/100'' empty_catalog_store) =
     SendError SERVICE_UNAVAILABLE \<and>
   fst (do_GET tracked ''/api/v2/malformed-courses'' empty_catalog_store) =
     SendError SERVICE_UNAVAILABLE"
proof -
  have u: "update_course_data tracked 100 [] [] [] INITIAL_COURSE_DATA = Inr empty_catalog_store"
    by (simp add: update_course_data_def INITIAL_COURSE_DATA_def empty_catalog_store_def)
  have f: "\<not> current_truthy empty_catalog_store"
    by (simp add: current_truthy_def empty_catalog_store_def)
  have a: "fst (do_GET tracked ''/api/v2/all-courses'' empty_catalog_store) =
             SendError SERVICE_UNAVAILABLE"
    using f by (simp add: do_GET_def startswith_def)
  have s: "fst (do_GET tracked ''/api/v2/courses-since/100'' empty_catalog_store) =
             SendError SERVICE_UNAVAILABLE"
    using f do_GET_courses_since [of tracked "''100''" empty_catalog_store]
    by (simp add: ts_char_def py_int_def int_max_str_digits_def is_digit_def courses_since_def)
  have m: "fst (do_GET tracked ''/api/v2/malformed-courses'' empty_catalog_store) =
             SendError SERVICE_UNAVAILABLE"
    using f by (simp add: do_GET_def startswith_def match_courses_since_def)
  show ?thesis
    using u a s m by (simp add: empty_catalog_store_def)
qed

text \<open>
  C4, amended: the routes for the full catalog, for the malformed records and for the diff
  since an integer timestamp that \<open>int\<close> accepts (an optional sign and one to 4300 digits;
  a longer one is answered 400 before the catalog is looked at) answer 503 exactly when \<open>course_data["current"]\<close> is \<open>None\<close> or
  the empty list (so also for an initialized store with an empty catalog). When the catalog
  is not empty, the diff route answers \<open>incremental: true\<close> with the diff of \<open>compute_diff\<close>
  if the timestamp is at least the initial timestamp (the exception of \<open>compute_diff\<close> if it
  raises one), and otherwise the full catalog with \<open>incremental: false\<close>.
\<close>

theorem read_routes_unavailable:
  "(fst (do_GET attrs ''/api/v2/all-courses'' cd) = SendError SERVICE_UNAVAILABLE
      \<longleftrightarrow> current cd = None \<or> current cd = Some []) \<and>
   (fst (do_GET attrs ''/api/v2/malformed-courses'' cd) = SendError SERVICE_UNAVAILABLE
      \<longleftrightarrow> current cd = None \<or> current cd = Some []) \<and>
   (list_all ts_char g \<and> py_int g = Some since \<longrightarrow>
      (fst (do_GET attrs (''/api/v2/courses-since/'' @ g) cd) = SendError SERVICE_UNAVAILABLE
         \<longleftrightarrow> current cd = None \<or> current cd = Some []) \<and>
      (\<forall>courses t0 m.
         current cd = Some courses \<and> courses \<noteq> [] \<and> initial_timestamp cd = Some t0 \<and>
         malformed cd = Some m \<longrightarrow>
         fst (do_GET attrs (''/api/v2/courses-since/'' @ g) cd) =
           (if since \<ge> t0
            then (case compute_diff attrs cd since of
                    Inl e \<Rightarrow> Raised e
                  | Inr d \<Rightarrow> OK (Incremental d (timestamp cd) (length m)))
            else OK (NotIncremental courses (timestamp cd) (length m)))))"
proof (intro conjI impI allI)
  show "fst (do_GET attrs ''/api/v2/all-courses'' cd) = SendError SERVICE_UNAVAILABLE
      \<longleftrightarrow> current cd = None \<or> current cd = Some []"
    using respond_not_error
    by (auto simp: do_GET_def startswith_def current_truthy_iff)
  show "fst (do_GET attrs ''/api/v2/malformed-courses'' cd) = SendError SERVICE_UNAVAILABLE
      \<longleftrightarrow> current cd = None \<or> current cd = Some []"
    by (auto simp: do_GET_def startswith_def match_courses_since_def current_truthy_iff
          split: option.splits)
next
  assume g: "list_all ts_char g \<and> py_int g = Some since"
  then have ne: "g \<noteq> []" by (auto simp: py_int_def)
  from g have tw: "takeWhile ts_char g = g" by (simp add: list_all_iff)
  have "do_GET attrs (''/api/v2/courses-since/'' @ g) cd =
      (case g of
         [] \<Rightarrow> (SendError NOT_FOUND, cd)
       | c # g' \<Rightarrow>
           (case py_int (c # g') of
              None \<Rightarrow> (SendError BAD_REQUEST, cd)
            | Some since \<Rightarrow> (courses_since attrs cd since, cd)))"
    using do_GET_courses_since [of attrs g cd] by (simp only: tw)
  then have r: "do_GET attrs (''/api/v2/courses-since/'' @ g) cd =
      (courses_since attrs cd since, cd)"
    using g ne by (cases g) simp_all
  show "fst (do_GET attrs (''/api/v2/courses-since/'' @ g) cd) = SendError SERVICE_UNAVAILABLE
         \<longleftrightarrow> current cd = None \<or> current cd = Some []"
    unfolding r using courses_since_unavailable [of attrs cd since]
    by (simp add: current_truthy_iff)
  fix courses t0 m
  assume c: "current cd = Some courses \<and> courses \<noteq> [] \<and> initial_timestamp cd = Some t0 \<and>
         malformed cd = Some m"
  then have "current_truthy cd" by (simp add: current_truthy_def)
  with c show "fst (do_GET attrs (''/api/v2/courses-since/'' @ g) cd) =
           (if since \<ge> t0
            then (case compute_diff attrs cd since of
                    Inl e \<Rightarrow> Raised e
                  | Inr d \<Rightarrow> OK (Incremental d (timestamp cd) (length m)))
            else OK (NotIncremental courses (timestamp cd) (length m)))"
    unfolding r
    by (cases "compute_diff attrs cd since")
       (simp_all add: courses_since_def since_ge_def malformed_count_def respond_def)
qed

theorem read_routes_unavailable_witness:
  "list_all ts_char ''100'' \<and> py_int ''100'' = Some 100 \<and>
   fst (do_GET tracked ''/api/v2/courses-since/100'' renamed_store) =
     (case compute_diff tracked renamed_store 100 of
        Inl e \<Rightarrow> Raised e
      | Inr d \<Rightarrow> OK (Incremental d (timestamp renamed_store) (length ([] :: course list)))) \<and>
   list_all ts_char ''99'' \<and> py_int ''99'' = Some 99 \<and>
   fst (do_GET tracked ''/api/v2/courses-since/99'' renamed_store) =
     OK (NotIncremental [intro_cs_renamed] (Some 200) 0)"
proof -
  have g: "list_all ts_char ''100'' \<and> py_int ''100'' = Some 100"
    by (simp add: ts_char_def py_int_def int_max_str_digits_def is_digit_def nat_of_digits_def digit_value_def)
  have g': "list_all ts_char ''99'' \<and> py_int ''99'' = Some 99"
    by (simp add: ts_char_def py_int_def int_max_str_digits_def is_digit_def nat_of_digits_def digit_value_def)
  have c: "current renamed_store = Some [intro_cs_renamed] \<and> [intro_cs_renamed] \<noteq> [] \<and>
           initial_timestamp renamed_store = Some 100 \<and> malformed renamed_store = Some []"
    by (simp add: renamed_store_def)
  have t: "timestamp renamed_store = Some 200"
    by (simp add: renamed_store_def)
  show ?thesis
    using g g' c t
      read_routes_unavailable [of tracked renamed_store "''100''" 100]
      read_routes_unavailable [of tracked renamed_store "''99''" 99]
    by auto
qed

section \<open>The debug reset\<close>

text \<open>
  As long as the initial object is untouched, a reset leaves \<open>course_data\<close> uninitialized:
  that is so for the first reset after the module is loaded, whatever refreshes came before.
\<close>

lemma debug_reset_pristine:
  "heap w InitialObject = INITIAL_COURSE_DATA \<Longrightarrow> deref (debug_reset w) = INITIAL_COURSE_DATA"
  by (simp add: deref_def debug_reset_def)

lemma refreshes_keep_initial_object:
  assumes "run attrs ops w = Inr w'" and "Reset \<notin> set ops" and "course_data w = CopyObject"
  shows "heap w' InitialObject = heap w InitialObject \<and> course_data w' = CopyObject"
  using assms
proof (induction ops arbitrary: w)
  case Nil
  then show ?case by simp
next
  case (Cons op ops)
  show ?case
  proof (cases op)
    case Reset
    with Cons.prems show ?thesis by simp
  next
    case (Refresh ts courses ix m)
    with Cons.prems(1) obtain w1 where
      w1: "refresh attrs ts courses ix m w = Inr w1" and rest: "run attrs ops w1 = Inr w'"
      by (auto simp: bind_err_Inr)
    from w1 Cons.prems(3) have
      "heap w1 InitialObject = heap w InitialObject" "course_data w1 = CopyObject"
      by (auto simp: refresh_def bind_err_Inr)
    with Cons.IH [OF rest] Cons.prems(2) show ?thesis by simp
  qed
qed

lemma first_reset_uninitialized:
  assumes "run attrs ops module_loaded = Inr w" and "Reset \<notin> set ops"
  shows "deref (debug_reset w) = INITIAL_COURSE_DATA"
proof -
  have "course_data module_loaded = CopyObject" by (simp add: module_loaded_def)
  from refreshes_keep_initial_object [OF assms this]
  have "heap w InitialObject = INITIAL_COURSE_DATA" by (simp add: module_loaded_def)
  then show ?thesis by (rule debug_reset_pristine)
qed

text \<open>
  C9 fails on the code: the reset binds \<open>course_data\<close> to the object \<open>INITIAL_COURSE_DATA\<close>
  itself, not to a copy of it as the module does when it is loaded, so the next refresh
  writes into \<open>INITIAL_COURSE_DATA\<close> and a later reset changes nothing. After a reset, a
  refresh with one course at time 100 and a second reset, the store still holds the course
  and the full catalog is served.
\<close>

theorem second_reset_keeps_catalog:
  "(case run tracked reset_refresh_reset module_loaded of
      Inl e \<Rightarrow> False
    | Inr w \<Rightarrow>
        course_data w = InitialObject \<and>
        map_option length (current (deref w)) = Some 1 \<and>
        map_option (map fst) (index (deref w)) = Some [intro_key] \<and>
        timestamp (deref w) = Some 100 \<and>
        initial_timestamp (deref w) = Some 100 \<and>
        (case fst (do_GET tracked ''/api/v2/all-courses'' (deref w)) of
           OK (AllCourses courses ts n) \<Rightarrow> length courses = 1 \<and> ts = Some 100
         | _ \<Rightarrow> False))"
  by code_simp

section \<open>Deduplication\<close>









lemma for_each_ok:
  assumes "\<And>x s. x \<in> set xs \<Longrightarrow> \<exists>s'. f x s = Inr s'"
  shows "\<exists>s'. for_each f xs s = Inr s'"
  using assms
proof (induction xs arbitrary: s)
  case Nil
  show ?case by simp
next
  case (Cons x xs)
  from Cons.prems [of x s] obtain s1 where s1: "f x s = Inr s1" by auto
  from Cons.IH [of s1] Cons.prems obtain s' where "for_each f xs s1 = Inr s'" by auto
  with s1 show ?case by simp
qed

lemma build_groups_ok:
  assumes "\<forall>i < length cs. \<exists>k. course_to_index_key (cs ! i) = Inr k"
  shows "\<exists>g. build_groups cs = Inr g"
  unfolding build_groups_def
proof (rule for_each_ok)
  fix i g assume "i \<in> set [0 ..< length cs]"
  with assms obtain k where "course_to_index_key (cs ! i) = Inr k" by auto
  then show "\<exists>s'. group_course cs i g = Inr s'" by (simp add: group_course_def)
qed

lemma assign_letters_length [simp]: "length (assign_letters zs cs) = length cs"
  by (induction zs cs rule: assign_letters.induct) simp_all




lemma dedup_groups_length [simp]: "length (snd (dedup_groups g cs)) = length cs"
  by (induction g cs rule: dedup_groups.induct) (auto split: option.splits)
















section \<open>A collision with a suffix\<close>




section \<open>More records than letters\<close>




end
